theory Spec2Isabelle
  imports Complex_Main
begin

section \<open>Python values used by \<open>arm/util/connections.py\<close>\<close>

text \<open>
  The module is Python 2. Its strings are byte strings (\<open>string\<close> here), its
  integers are unbounded (\<open>int\<close>), and its clock readings and rates are floats.
  A float is the \<open>real\<close> it stands for, so comparisons are those of the reals. The
  result of an arithmetic operation on floats is rounded: the functions below take
  the rounding \<open>rnd\<close> as their first argument and apply it to every difference,
  product and sum the source computes (a result too large for a float is not
  modelled). What is proved about them holds for every rounding, or for every
  rounding with the properties a theorem names.
\<close>

subsection \<open>String methods\<close>

definition is_digit :: "char \<Rightarrow> bool" where
  "is_digit c = (c \<in> set ''0123456789'')"

definition isdigit :: "string \<Rightarrow> bool" where
  \<comment> \<open>\<open>str.isdigit()\<close>: at least one character, and every character a decimal digit.\<close>
  "isdigit s = (s \<noteq> [] \<and> list_all is_digit s)"

definition startswith :: "string \<Rightarrow> string \<Rightarrow> bool" where
  "startswith s p = (take (length p) s = p)"

fun find_char :: "char \<Rightarrow> string \<Rightarrow> int" where
  \<comment> \<open>\<open>s.find(c)\<close> for a one-character \<open>c\<close>: the first index, or \<open>-1\<close>.\<close>
  "find_char c [] = -1"
| "find_char c (x # xs) =
     (if x = c then 0 else (let i = find_char c xs in if i = -1 then -1 else i + 1))"

definition isspace :: "char \<Rightarrow> bool" where
  \<comment> \<open>C's \<open>isspace\<close>: space, \<open>\\t\<close>, \<open>\\n\<close>, \<open>\\v\<close>, \<open>\\f\<close>, \<open>\\r\<close>.\<close>
  "isspace c = (c = CHR '' '' \<or> ((9::nat) \<le> of_char c \<and> (of_char c :: nat) \<le> 13))"

definition digit_val :: "char \<Rightarrow> int" where
  "digit_val c = int (of_char c) - 48"

definition digits_val :: "string \<Rightarrow> int" where
  "digits_val ds = foldl (\<lambda>acc c. 10 * acc + digit_val c) 0 ds"

definition unsigned_int :: "string \<Rightarrow> int option" where
  \<comment> \<open>The digits of \<open>int(s)\<close>, after the sign: whitespace, then at least one decimal
      digit, then whitespace up to the end of the string.\<close>
  "unsigned_int s =
     (let s3 = dropWhile isspace s;
          ds = takeWhile is_digit s3;
          rest = dropWhile isspace (dropWhile is_digit s3)
      in if ds = [] \<or> rest \<noteq> [] then None else Some (digits_val ds))"

definition py_int :: "string \<Rightarrow> int option" where
  \<comment> \<open>\<open>int(s)\<close> in base 10: a decimal number, possibly signed, possibly embedded in
      whitespace (Python 2 also skips whitespace after the sign). \<open>None\<close> stands
      for \<open>ValueError\<close>.\<close>
  "py_int s =
     (case dropWhile isspace s of
        [] \<Rightarrow> None
      | c # cs \<Rightarrow>
          if c = CHR ''-'' then map_option uminus (unsigned_int cs)
          else if c = CHR ''+'' then unsigned_int cs
          else unsigned_int (c # cs))"

definition digit_char :: "nat \<Rightarrow> char" where
  "digit_char d = ''0123456789'' ! d"

fun str_nat :: "nat \<Rightarrow> string" where
  "str_nat n = (if n < 10 then [digit_char n] else str_nat (n div 10) @ [digit_char (n mod 10)])"

declare str_nat.simps [simp del]

definition py_str :: "int \<Rightarrow> string" where
  \<comment> \<open>\<open>str(i)\<close> of an integer.\<close>
  "py_str i = (if i < 0 then CHR ''-'' # str_nat (nat (- i)) else str_nat (nat i))"

section \<open>Port Usage Registry: \<open>conf_handler\<close> and \<open>getPortUsage\<close>\<close>

text \<open>
  \<open>PORT_USAGE\<close> is a module-level dict. A Python dict takes keys of any hashable
  type, and an integer never equals a string, so the keys a caller can pass are
  modelled as a datatype of the two kinds that occur.
\<close>

datatype pykey = PInt int | PStr string

type_synonym port_usage = "pykey \<rightharpoonup> string"

datatype py_exn = ValueError | IndexError | OverflowError | KeyError

definition parse_range :: "string \<Rightarrow> int \<Rightarrow> (int \<times> int) option" where
  \<comment> \<open>Lines 51 to 53: the two \<open>int(...)\<close> calls and the order check. Each of them
      raises \<open>ValueError\<close> and nothing else, which is \<open>None\<close> here.\<close>
  "parse_range portEntry divIndex =
     (case py_int (take (nat divIndex) portEntry) of
        None \<Rightarrow> None
      | Some minPort \<Rightarrow>
          (case py_int (drop (nat (divIndex + 1)) portEntry) of
             None \<Rightarrow> None
           | Some maxPort \<Rightarrow> if minPort > maxPort then None else Some (minPort, maxPort)))"

definition conf_handler ::
  "nat \<Rightarrow> string \<Rightarrow> string \<Rightarrow> port_usage \<Rightarrow> py_exn + (port_usage \<times> string list)" where
  \<comment> \<open>The state is \<open>PORT_USAGE\<close>; the result is the new table and the messages given to
      \<open>log.notice\<close>, or \<open>Inl\<close> for an exception that leaves the handler. The only one
      comes from \<open>range\<close>, which builds its list before the loop starts and fails
      when the list would hold more than \<open>cap\<close> items (a limit of the interpreter and
      its memory, taken as a parameter); the handler catches \<open>ValueError\<close> alone.\<close>
  "conf_handler cap key val pu =
     (if startswith key ''port.label.'' then
        (let portEntry = drop 11 key;
             divIndex = find_char CHR ''-'' portEntry
         in if divIndex = -1 then
              (if isdigit portEntry then Inr (pu(PStr portEntry \<mapsto> val), [])
               else Inr (pu, [''Port value isn't numeric for entry: '' @ key]))
            else
              (case parse_range portEntry divIndex of
                 None \<Rightarrow> Inr (pu, [''Unable to parse port range for entry: '' @ key])
               | Some (minPort, maxPort) \<Rightarrow>
                   if int cap < maxPort + 1 - minPort then Inl OverflowError
                   else Inr (fold (\<lambda>port m. m(PStr (py_str port) \<mapsto> val)) [minPort..maxPort] pu, [])))
      else Inr (pu, []))"

definition getPortUsage :: "port_usage \<Rightarrow> pykey \<Rightarrow> string option" where
  \<comment> \<open>\<open>PORT_USAGE.get(port)\<close>\<close>
  "getPortUsage pu port = pu port"

fun load_config :: "nat \<Rightarrow> (string \<times> string) list \<Rightarrow> port_usage \<Rightarrow> py_exn + (port_usage \<times> string list)" where
  \<comment> \<open>A sequence of handler calls, one per configuration entry, in order; an exception
      stops the sequence. Line 65 starts the table as the empty dict.\<close>
  "load_config cap [] pu = Inr (pu, [])"
| "load_config cap ((key, val) # kvs) pu =
     (case conf_handler cap key val pu of
        Inl e \<Rightarrow> Inl e
      | Inr (pu', msgs) \<Rightarrow>
          (case load_config cap kvs pu' of
             Inl e \<Rightarrow> Inl e
           | Inr (pu'', msgs') \<Rightarrow> Inr (pu'', msgs @ msgs')))"

definition digit_keys :: "port_usage \<Rightarrow> bool" where
  \<comment> \<open>Every key of the table is a string of decimal digits.\<close>
  "digit_keys pu = (\<forall>k v. pu k = Some v \<longrightarrow> (\<exists>s. k = PStr s \<and> isdigit s))"

subsection \<open>Facts about the string functions\<close>

lemma find_char_ge: "-1 \<le> find_char c xs"
  by (induction xs) (auto simp: Let_def)

lemma find_char_notin: "find_char c xs = -1 \<longleftrightarrow> c \<notin> set xs"
proof (induction xs)
  case Nil
  show ?case by simp
next
  case (Cons x xs)
  have "-1 \<le> find_char c xs" by (rule find_char_ge)
  with Cons show ?case by (auto simp: Let_def)
qed

lemma find_char_append: "c \<notin> set a \<Longrightarrow> find_char c (a @ c # b) = int (length a)"
  by (induction a) (auto simp: Let_def)

lemma find_char_take: "c \<notin> set (take (nat (find_char c xs)) xs)"
proof (induction xs)
  case Nil
  show ?case by simp
next
  case (Cons x xs)
  have "-1 \<le> find_char c xs" by (rule find_char_ge)
  with Cons show ?case by (auto simp: Let_def nat_add_distrib)
qed

lemma digit_char_digit: "d < 10 \<Longrightarrow> is_digit (digit_char d)"
  unfolding digit_char_def is_digit_def by (rule nth_mem) simp

lemma str_nat_digits: "str_nat n \<noteq> [] \<and> list_all is_digit (str_nat n)"
proof (induction n rule: str_nat.induct)
  case (1 n)
  show ?case
  proof (cases "n < 10")
    case True
    then show ?thesis using digit_char_digit [of n] by (subst (1 2) str_nat.simps) simp
  next
    case False
    have "n mod 10 < 10" by simp
    then have "is_digit (digit_char (n mod 10))" by (rule digit_char_digit)
    with False 1 show ?thesis by (subst (1 2) str_nat.simps) simp
  qed
qed

lemma isdigit_py_str: "0 \<le> i \<Longrightarrow> isdigit (py_str i)"
  using str_nat_digits [of "nat i"] by (simp add: isdigit_def py_str_def)

lemma digit_val_nonneg: "is_digit c \<Longrightarrow> 0 \<le> digit_val c"
  by (auto simp: digit_val_def is_digit_def)

lemma foldl_digits_nonneg:
  "0 \<le> acc \<Longrightarrow> list_all is_digit ds \<Longrightarrow>
   0 \<le> foldl (\<lambda>acc c. 10 * acc + digit_val c) acc ds"
proof (induction ds arbitrary: acc)
  case Nil
  then show ?case by simp
next
  case (Cons c ds)
  from Cons.prems have "0 \<le> digit_val c" by (simp add: digit_val_nonneg)
  with Cons.prems have "0 \<le> 10 * acc + digit_val c" by simp
  with Cons show ?case by simp
qed

lemma list_all_takeWhile: "list_all P (takeWhile P xs)"
  by (induction xs) simp_all

lemma digits_val_nonneg: "0 \<le> digits_val (takeWhile is_digit s)"
  unfolding digits_val_def
  by (rule foldl_digits_nonneg) (simp_all add: list_all_takeWhile)

lemma unsigned_int_nonneg: "unsigned_int s = Some m \<Longrightarrow> 0 \<le> m"
  by (auto simp: unsigned_int_def Let_def digits_val_nonneg split: if_splits)

lemma py_int_unsigned:
  assumes a: "py_int s = Some m" and b: "CHR ''-'' \<notin> set s"
  shows "0 \<le> m"
proof (cases "dropWhile isspace s")
  case Nil
  with a show ?thesis by (simp add: py_int_def)
next
  case (Cons c cs)
  then have "c \<in> set (dropWhile isspace s)" by simp
  then have "c \<in> set s" by (rule set_dropWhileD)
  with b have "c \<noteq> CHR ''-''" by auto
  with a Cons show ?thesis
    by (auto simp: py_int_def dest: unsigned_int_nonneg split: if_splits)
qed

subsection \<open>The handler keeps the keys strings of digits\<close>

lemma digit_keys_fold:
  "digit_keys pu \<Longrightarrow> \<forall>p \<in> set ps. 0 \<le> p \<Longrightarrow>
   digit_keys (fold (\<lambda>port m. m(PStr (py_str port) \<mapsto> val)) ps pu)"
proof (induction ps arbitrary: pu)
  case Nil
  then show ?case by simp
next
  case (Cons p ps)
  from Cons.prems have "isdigit (py_str p)" by (simp add: isdigit_py_str)
  with Cons.prems have "digit_keys (pu(PStr (py_str p) \<mapsto> val))"
    by (auto simp: digit_keys_def)
  moreover from Cons.prems have "\<forall>q \<in> set ps. 0 \<le> q" by simp
  ultimately have "digit_keys (fold (\<lambda>port m. m(PStr (py_str port) \<mapsto> val)) ps (pu(PStr (py_str p) \<mapsto> val)))"
    by (rule Cons.IH)
  then show ?case by (simp only: fold_simps)
qed

lemma parse_range_nonneg:
  assumes "parse_range portEntry (find_char CHR ''-'' portEntry) = Some (m, n)"
  shows "0 \<le> m \<and> m \<le> n"
proof -
  from assms obtain "py_int (take (nat (find_char CHR ''-'' portEntry)) portEntry) = Some m" and "m \<le> n"
    by (auto simp: parse_range_def split: option.splits if_splits)
  then show ?thesis
    using py_int_unsigned [OF _ find_char_take] by blast
qed

lemma conf_handler_digit_keys:
  assumes "digit_keys pu" and "conf_handler cap key val pu = Inr (pu', msgs)"
  shows "digit_keys pu'"
proof (cases "startswith key ''port.label.''")
  case False
  with assms show ?thesis by (simp add: conf_handler_def)
next
  case pre: True
  let ?e = "drop 11 key"
  show ?thesis
  proof (cases "find_char CHR ''-'' ?e = -1")
    case True
    with pre assms show ?thesis
      by (auto simp: conf_handler_def digit_keys_def Let_def split: if_splits)
  next
    case rng: False
    show ?thesis
    proof (cases "parse_range ?e (find_char CHR ''-'' ?e)")
      case None
      with pre rng assms show ?thesis by (simp add: conf_handler_def)
    next
      case (Some mn)
      obtain m n where mn: "mn = (m, n)" by (cases mn)
      from Some mn have "0 \<le> m" using parse_range_nonneg by blast
      then have "\<forall>p \<in> set [m..n]. 0 \<le> p" by simp
      with assms(1) have "digit_keys (fold (\<lambda>port m. m(PStr (py_str port) \<mapsto> val)) [m..n] pu)"
        by (rule digit_keys_fold)
      with pre rng Some mn assms(2) show ?thesis
        by (simp add: conf_handler_def split: if_splits)
    qed
  qed
qed

lemma load_config_digit_keys:
  "digit_keys pu \<Longrightarrow> load_config cap kvs pu = Inr (pu', msgs) \<Longrightarrow> digit_keys pu'"
proof (induction kvs arbitrary: pu msgs)
  case Nil
  then show ?case by simp
next
  case (Cons kv kvs)
  obtain key val where kv: "kv = (key, val)" by (cases kv)
  from Cons.prems(2) kv obtain pu1 m1 m2 where
    h: "conf_handler cap key val pu = Inr (pu1, m1)" and t: "load_config cap kvs pu1 = Inr (pu', m2)"
    by (auto split: sum.splits prod.splits)
  from Cons.prems(1) h have "digit_keys pu1" by (rule conf_handler_digit_keys)
  then show ?case using t by (rule Cons.IH)
qed

subsection \<open>Claims about the registry\<close>

lemma range_100_102:
  assumes "3 \<le> cap"
  shows "\<exists>pu'. conf_handler cap ''port.label.100-102'' v pu = Inr (pu', [])
           \<and> getPortUsage pu' (PStr ''100'') = Some v
           \<and> getPortUsage pu' (PStr ''101'') = Some v
           \<and> getPortUsage pu' (PStr ''102'') = Some v
           \<and> getPortUsage pu' (PStr ''99'') = getPortUsage pu (PStr ''99'')
           \<and> getPortUsage pu' (PStr ''103'') = getPortUsage pu (PStr ''103'')"
  using assms
  by (simp add: conf_handler_def startswith_def parse_range_def py_int_def unsigned_int_def
      is_digit_def isspace_def digits_val_def digit_val_def py_str_def str_nat.simps
      digit_char_def getPortUsage_def upto_rec1)

lemma range_rejected:
  assumes "CHR ''-'' \<notin> set lo"
    and "py_int lo = None \<or> py_int hi = None \<or> (\<exists>m n. py_int lo = Some m \<and> py_int hi = Some n \<and> n < m)"
  shows "conf_handler cap (''port.label.'' @ lo @ ''-'' @ hi) v pu =
           Inr (pu, [''Unable to parse port range for entry: '' @ ''port.label.'' @ lo @ ''-'' @ hi])"
proof -
  have "find_char CHR ''-'' (lo @ ''-'' @ hi) = int (length lo)"
    using assms(1) by (simp add: find_char_append)
  moreover have "take (nat (int (length lo))) (lo @ ''-'' @ hi) = lo"
    and "drop (nat (int (length lo) + 1)) (lo @ ''-'' @ hi) = hi"
    by (simp_all add: nat_add_distrib)
  then have "parse_range (lo @ ''-'' @ hi) (int (length lo)) = None"
    using assms(2) unfolding parse_range_def by (auto split: option.splits)
  ultimately show ?thesis
    by (simp add: conf_handler_def startswith_def Let_def)
qed

lemma single_rejected:
  assumes "CHR ''-'' \<notin> set e" and "\<not> isdigit e"
  shows "conf_handler cap (''port.label.'' @ e) v pu =
           Inr (pu, [''Port value isn't numeric for entry: '' @ ''port.label.'' @ e])"
  using assms by (simp add: conf_handler_def startswith_def find_char_notin)

text \<open>
  Claim C8. The entry \<open>port.label.100-102\<close> with label \<open>v\<close> (accepted when the
  interpreter can build a list of three items) makes \<open>getPortUsage\<close> give \<open>v\<close> for the
  keys \<open>"100"\<close>, \<open>"101"\<close> and \<open>"102"\<close> and leaves what the table had for \<open>"99"\<close>
  and \<open>"103"\<close> (nothing, in an empty table). A range entry whose bounds do not parse
  or whose lower bound is greater than its upper bound, and a single-port entry that
  is not a string of digits, each return normally with the table unchanged and one
  message logged.
\<close>

theorem port_label_parsing:
  "(3 \<le> cap \<longrightarrow>
      (\<exists>pu'. conf_handler cap ''port.label.100-102'' v pu = Inr (pu', [])
           \<and> getPortUsage pu' (PStr ''100'') = Some v
           \<and> getPortUsage pu' (PStr ''101'') = Some v
           \<and> getPortUsage pu' (PStr ''102'') = Some v
           \<and> getPortUsage pu' (PStr ''99'') = getPortUsage pu (PStr ''99'')
           \<and> getPortUsage pu' (PStr ''103'') = getPortUsage pu (PStr ''103'')))
   \<and> (CHR ''-'' \<notin> set lo \<and>
        (py_int lo = None \<or> py_int hi = None \<or>
         (\<exists>m n. py_int lo = Some m \<and> py_int hi = Some n \<and> n < m)) \<longrightarrow>
        conf_handler cap (''port.label.'' @ lo @ ''-'' @ hi) v pu =
          Inr (pu, [''Unable to parse port range for entry: '' @ ''port.label.'' @ lo @ ''-'' @ hi]))
   \<and> (CHR ''-'' \<notin> set e \<and> \<not> isdigit e \<longrightarrow>
        conf_handler cap (''port.label.'' @ e) v pu =
          Inr (pu, [''Port value isn't numeric for entry: '' @ ''port.label.'' @ e]))"
  using range_100_102 [of cap v pu] range_rejected [of lo hi cap v pu]
    single_rejected [of e cap v pu]
  by blast

theorem port_label_parsing_witness:
  "(\<exists>pu'. conf_handler 3 ''port.label.100-102'' ''foo'' Map.empty = Inr (pu', [])
       \<and> getPortUsage pu' (PStr ''100'') = Some ''foo''
       \<and> getPortUsage pu' (PStr ''101'') = Some ''foo''
       \<and> getPortUsage pu' (PStr ''102'') = Some ''foo''
       \<and> getPortUsage pu' (PStr ''99'') = None
       \<and> getPortUsage pu' (PStr ''103'') = None)
   \<and> conf_handler 3 ''port.label.200-100'' ''foo'' Map.empty =
         Inr (Map.empty, [''Unable to parse port range for entry: port.label.200-100''])
   \<and> conf_handler 3 ''port.label.http'' ''foo'' Map.empty =
         Inr (Map.empty, [''Port value isn't numeric for entry: port.label.http''])"
proof -
  have lo: "py_int ''200'' = Some 200" and hi: "py_int ''100'' = Some 100"
    by (simp_all add: py_int_def unsigned_int_def is_digit_def isspace_def digits_val_def
        digit_val_def)
  have h2: "CHR ''-'' \<notin> set ''200'' \<and>
        (py_int ''200'' = None \<or> py_int ''100'' = None \<or>
         (\<exists>m n. py_int ''200'' = Some m \<and> py_int ''100'' = Some n \<and> n < m))"
    by (simp add: lo hi)
  have h3: "CHR ''-'' \<notin> set ''http'' \<and> \<not> isdigit ''http''"
    by (simp add: isdigit_def is_digit_def)
  have h1: "(3::nat) \<le> 3" by simp
  from port_label_parsing [of 3 "''foo''" Map.empty "''200''" "''100''" "''http''"] h1 h2 h3
  show ?thesis by (simp add: getPortUsage_def lo hi)
qed

text \<open>
  Claim C10. The handler only ever stores string keys (strings of decimal digits), and
  \<open>getPortUsage\<close> is a plain lookup of its argument. So in a table filled by handler
  calls, an integer argument finds nothing, and whatever key finds a label is a
  string of digits.
\<close>

theorem getPortUsage_int_key:
  "load_config cap kvs Map.empty = Inr (pu, msgs) \<Longrightarrow>
     getPortUsage pu (PInt n) = None \<and>
     (\<forall>k v. getPortUsage pu k = Some v \<longrightarrow> (\<exists>s. k = PStr s \<and> isdigit s))"
proof -
  assume h: "load_config cap kvs Map.empty = Inr (pu, msgs)"
  have "digit_keys Map.empty" by (simp add: digit_keys_def)
  then have "digit_keys pu" using h by (rule load_config_digit_keys)
  then show ?thesis
    unfolding digit_keys_def getPortUsage_def
    by (metis not_Some_eq pykey.distinct(1))
qed

theorem getPortUsage_int_key_witness:
  "load_config 3 [(''port.label.80'', ''HTTP'')] Map.empty = Inr ([PStr ''80'' \<mapsto> ''HTTP''], [])
   \<and> getPortUsage [PStr ''80'' \<mapsto> ''HTTP''] (PStr ''80'') = Some ''HTTP''
   \<and> getPortUsage [PStr ''80'' \<mapsto> ''HTTP''] (PInt 80) = None"
proof -
  have h: "load_config 3 [(''port.label.80'', ''HTTP'')] Map.empty = Inr ([PStr ''80'' \<mapsto> ''HTTP''], [])"
    by (simp add: conf_handler_def startswith_def isdigit_def is_digit_def)
  from getPortUsage_int_key [OF h, of 80] h show ?thesis
    by (simp add: getPortUsage_def)
qed

section \<open>Connection Resolver: \<open>ConnectionResolver\<close>\<close>

text \<open>
  A connection is the tuple \<open>(local_address, local_port, remote_address, remote_port)\<close>.
  A backend (``resolver'' in the source) is named by a string. Field names drop the
  leading underscore of the source's private attributes.
\<close>

type_synonym conn = "string \<times> int \<times> string \<times> int"

record resolver =
  processName :: string
  processPid :: string
  resolveRate :: "real option"
  handle :: string
  defaultRate :: real
  lastLookup :: real
  overwriteResolver :: "string option"
  defaultResolver :: "string option"
  resolverOptions :: "string list"
  connections :: "conn list"
  resolutionCounter :: int
  isPaused :: bool
  halt :: bool
  subsiquentFailures :: int
  resolverBlacklist :: "string list"
  rateThresholdBroken :: int

definition RESOLVER_FAILURE_TOLERANCE :: int where
  "RESOLVER_FAILURE_TOLERANCE = 3"

definition truthy :: "string option \<Rightarrow> bool" where
  \<comment> \<open>Python's truth value of a string or \<open>None\<close>: \<open>None\<close> and \<open>""\<close> are false.\<close>
  "truthy r = (case r of None \<Rightarrow> False | Some x \<Rightarrow> x \<noteq> [])"

definition init_resolver ::
  "real \<Rightarrow> string list \<Rightarrow> string \<Rightarrow> string \<Rightarrow> real option \<Rightarrow> string option \<Rightarrow> resolver" where
  \<comment> \<open>\<open>__init__\<close>. \<open>minRate\<close> is \<open>CONFIG["queries.connections.minRate"]\<close> and
      \<open>options\<close> is what \<open>connection.get_system_resolvers()\<close> returns.\<close>
  "init_resolver minRate options name pid rate hdl =
     \<lparr> processName = name,
       processPid = pid,
       resolveRate = rate,
       handle = (if truthy hdl then the hdl else name),
       defaultRate = minRate,
       lastLookup = -1,
       overwriteResolver = None,
       defaultResolver = (case options of [] \<Rightarrow> None | r # _ \<Rightarrow> Some r),
       resolverOptions = options,
       connections = [],
       resolutionCounter = 0,
       isPaused = False,
       halt = False,
       subsiquentFailures = 0,
       resolverBlacklist = [],
       rateThresholdBroken = 0 \<rparr>"

subsection \<open>The polling loop \<open>run\<close>\<close>

text \<open>
  What one pass of the loop body gets from outside: the readings of \<open>time.time()\<close>
  (at the top of the loop, before the query, after it, and the one stored in
  \<open>lastLookup\<close>) and what \<open>connection.get_connections\<close> does when it is
  called: it returns connections, raises \<open>ValueError\<close> or \<open>IOError\<close> (caught, with
  the text of the exception), or raises something the loop does not catch.
\<close>

datatype query_outcome = Connections "conn list" | Raised string | Uncaught

record cycle_env =
  clock_top :: real
  clock_start :: real
  clock_end :: real
  clock_last :: real
  outcome :: query_outcome

text \<open>What a pass does that is visible outside the resolver's fields.\<close>

datatype action =
    Wait real               \<comment> \<open>\<open>self._cond.wait(sleepTime)\<close>\<close>
  | Skip                    \<comment> \<open>nothing to resolve with: no query is made\<close>
  | Query string            \<comment> \<open>\<open>connection.get_connections\<close> called with this backend\<close>
  | Log_trace_rate real     \<comment> \<open>line 270\<close>
  | Log_info string         \<comment> \<open>line 281\<close>
  | Log_serial_failure string string  \<comment> \<open>line 300\<close>
  | Log_final_failure       \<comment> \<open>line 303\<close>
  | Died                    \<comment> \<open>an exception left \<open>run\<close>: the thread ends\<close>

definition min_wait :: "resolver \<Rightarrow> real" where
  \<comment> \<open>\<open>self.resolveRate if self.resolveRate else self.defaultRate\<close>: a rate of
      \<open>None\<close> or \<open>0\<close> is false.\<close>
  "min_wait s = (case resolveRate s of
                   None \<Rightarrow> defaultRate s
                 | Some r \<Rightarrow> if r \<noteq> 0 then r else defaultRate s)"

definition active_resolver :: "resolver \<Rightarrow> string option" where
  \<comment> \<open>Lines 245 and 246.\<close>
  "active_resolver s =
     (if overwriteResolver s = None then defaultResolver s else overwriteResolver s)"

definition adapt_rate :: "(real \<Rightarrow> real) \<Rightarrow> real \<Rightarrow> resolver \<Rightarrow> resolver \<times> action list" where
  \<comment> \<open>Lines 264 to 272, with \<open>newMinDefaultRate\<close> given. The sum of line 268 is
      rounded; \<open>0.5\<close> is itself a float.\<close>
  "adapt_rate rnd newMinDefaultRate s =
     (if defaultRate s < newMinDefaultRate then
        (if rateThresholdBroken s \<ge> 3 then
           (s\<lparr>defaultRate := rnd (newMinDefaultRate + 1/2)\<rparr>,
            [Log_trace_rate (rnd (newMinDefaultRate + 1/2))])
         else (s\<lparr>rateThresholdBroken := rateThresholdBroken s + 1\<rparr>, []))
      else (s\<lparr>rateThresholdBroken := 0\<rparr>, []))"

definition fail_over :: "string \<Rightarrow> resolver \<Rightarrow> resolver \<times> action list" where
  \<comment> \<open>Lines 284 to 305: the failure of a query made with the default backend.\<close>
  "fail_over r s =
     (let s1 = s\<lparr>subsiquentFailures := subsiquentFailures s + 1\<rparr>
      in if subsiquentFailures s1 \<ge> RESOLVER_FAILURE_TOLERANCE then
           (let blacklist = resolverBlacklist s1 @ [r];
                newResolver = List.find (\<lambda>r'. r' \<notin> set blacklist) (resolverOptions s1)
            in (s1\<lparr>resolverBlacklist := blacklist, subsiquentFailures := 0,
                    defaultResolver := newResolver\<rparr>,
                [if truthy newResolver then Log_serial_failure r (the newResolver)
                 else Log_final_failure]))
         else (s1, []))"

definition run_body :: "(real \<Rightarrow> real) \<Rightarrow> cycle_env \<Rightarrow> resolver \<Rightarrow> resolver \<times> action list" where
  \<comment> \<open>Lines 233 to 307: one pass of the body of \<open>while not self._halt\<close>. The
      \<open>lookupTime\<close> is the rounded \<open>clock_end - clock_start\<close>; it spans the
      \<open>time.sleep(2)\<close> of line 255 as well as the query. The literal \<open>0.2\<close> of line
      237 is the float nearest to it, \<open>rnd (2/10)\<close>.\<close>
  "run_body rnd e s =
     (let minWait = min_wait s;
          timeSinceReset = rnd (clock_top e - lastLookup s)
      in if isPaused s \<or> timeSinceReset < minWait then
           (s, if halt s then [] else [Wait (max (rnd (2/10)) (rnd (minWait - timeSinceReset)))])
         else
           (let isDefault = (overwriteResolver s = None);
                resolver = active_resolver s
            in if \<not> truthy resolver then (s\<lparr>lastLookup := clock_last e\<rparr>, [Skip])
               else
                 (case outcome e of
                    Connections connResults \<Rightarrow>
                      (let lookupTime = rnd (clock_end e - clock_start e);
                           s1 = s\<lparr>connections := connResults,
                                  resolutionCounter := resolutionCounter s + 1\<rparr>;
                           (s2, logged) = adapt_rate rnd (rnd (100 * lookupTime)) s1;
                           s3 = (if isDefault then s2\<lparr>subsiquentFailures := 0\<rparr> else s2)
                       in (s3\<lparr>lastLookup := clock_last e\<rparr>, Query (the resolver) # logged))
                  | Raised msg \<Rightarrow>
                      (let info = (if startswith msg ''No results found using:''
                                   then [Log_info msg] else []);
                           (s1, logged) = (if isDefault then fail_over (the resolver) s else (s, []))
                       in (s1\<lparr>lastLookup := clock_last e\<rparr>,
                           Query (the resolver) # info @ logged))
                  | Uncaught \<Rightarrow>
                      (s\<lparr>lastLookup := clock_last e\<rparr>, [Query (the resolver), Died]))))"

fun run :: "(real \<Rightarrow> real) \<Rightarrow> cycle_env list \<Rightarrow> resolver \<Rightarrow> resolver \<times> action list" where
  \<comment> \<open>The loop, for as many passes as the list has environments: it stops when
      \<open>_halt\<close> is set or an exception ends the thread.\<close>
  "run rnd [] s = (s, [])"
| "run rnd (e # es) s =
     (if halt s then (s, [])
      else (let (s1, acts) = run_body rnd e s
            in if Died \<in> set acts then (s1, acts)
               else (let (s2, acts') = run rnd es s1 in (s2, acts @ acts'))))"

subsection \<open>The other methods\<close>

definition getConnections :: "resolver \<Rightarrow> conn list" where
  "getConnections s = (if halt s then [] else connections s)"

definition getResolutionCount :: "resolver \<Rightarrow> int" where
  "getResolutionCount s = resolutionCounter s"

definition setOverwriteResolver :: "string option \<Rightarrow> resolver \<Rightarrow> resolver" where
  "setOverwriteResolver r s = s\<lparr>overwriteResolver := r\<rparr>"

definition setPid :: "string \<Rightarrow> resolver \<Rightarrow> resolver" where
  "setPid pid s = s\<lparr>processPid := pid\<rparr>"

definition setPaused :: "bool \<Rightarrow> resolver \<Rightarrow> resolver" where
  "setPaused isPause s = (if isPause = isPaused s then s else s\<lparr>isPaused := isPause\<rparr>)"

definition stop :: "resolver \<Rightarrow> resolver" where
  \<comment> \<open>Sets \<open>_halt\<close> and notifies the loop's condition.\<close>
  "stop s = s\<lparr>halt := True\<rparr>"

subsection \<open>Poll cycles\<close>

text \<open>
  A pass of the loop either waits (lines 236 to 243) or goes on to the query. A poll
  cycle is a pass that reaches the query: the resolver is not halted, the pass does
  not wait, and there is a backend to use. \<open>succeeds rnd t\<close> says the query of a pass
  returned connections and the \<open>lookupTime\<close> the code computes for it (line 259) is
  \<open>t\<close>, \<open>fails\<close> that it raised an error the loop catches. \<open>poll_run P\<close> says that every pass of a run either waits or is a poll cycle
  whose environment satisfies \<open>P\<close>, and \<open>cycles\<close> counts the passes of a run that do
  not wait.
\<close>

definition waits :: "(real \<Rightarrow> real) \<Rightarrow> cycle_env \<Rightarrow> resolver \<Rightarrow> bool" where
  "waits rnd e s = (isPaused s \<or> rnd (clock_top e - lastLookup s) < min_wait s)"

definition polls :: "(real \<Rightarrow> real) \<Rightarrow> cycle_env \<Rightarrow> resolver \<Rightarrow> bool" where
  "polls rnd e s = (\<not> halt s \<and> \<not> waits rnd e s \<and> truthy (active_resolver s))"

definition succeeds :: "(real \<Rightarrow> real) \<Rightarrow> real \<Rightarrow> cycle_env \<Rightarrow> bool" where
  "succeeds rnd t e = (case outcome e of Connections _ \<Rightarrow> rnd (clock_end e - clock_start e) = t | _ \<Rightarrow> False)"

definition fails :: "cycle_env \<Rightarrow> bool" where
  "fails e = (case outcome e of Raised _ \<Rightarrow> True | _ \<Rightarrow> False)"

fun poll_run :: "(real \<Rightarrow> real) \<Rightarrow> (cycle_env \<Rightarrow> bool) \<Rightarrow> cycle_env list \<Rightarrow> resolver \<Rightarrow> bool" where
  "poll_run rnd P [] s = True"
| "poll_run rnd P (e # es) s =
     (if waits rnd e s then \<not> halt s \<and> poll_run rnd P es s
      else polls rnd e s \<and> P e \<and> poll_run rnd P es (fst (run_body rnd e s)))"

fun cycles :: "(real \<Rightarrow> real) \<Rightarrow> cycle_env list \<Rightarrow> resolver \<Rightarrow> nat" where
  "cycles rnd [] s = 0"
| "cycles rnd (e # es) s =
     (if waits rnd e s then cycles rnd es s else Suc (cycles rnd es (fst (run_body rnd e s))))"

lemma wait_step:
  assumes "waits rnd e s" "\<not> halt s"
  shows "fst (run rnd (e # es) s) = fst (run rnd es s)"
proof -
  from assms have "run_body rnd e s = (s, [Wait (max (rnd (2/10)) (rnd (min_wait s - rnd (clock_top e - lastLookup s))))])"
    unfolding run_body_def waits_def by (simp add: Let_def)
  with assms(2) show ?thesis by (simp add: split_beta)
qed

lemma no_cycles: "poll_run rnd P es s \<Longrightarrow> cycles rnd es s = 0 \<Longrightarrow> fst (run rnd es s) = s"
proof (induction es)
  case Nil
  then show ?case by simp
next
  case (Cons e es)
  from Cons.prems(2) have w: "waits rnd e s" by (simp split: if_splits)
  with Cons.prems have h: "\<not> halt s" and r: "poll_run rnd P es s" "cycles rnd es s = 0" by simp_all
  from Cons.IH [OF r] show ?case unfolding wait_step [OF w h] .
qed

lemma adapt_rate_no_Died: "Died \<notin> set (snd (adapt_rate rnd x s))"
  by (simp add: adapt_rate_def)

lemma success_step:
  assumes "polls rnd e s" "succeeds rnd t e"
  shows "fst (run_body rnd e s) =
     (let s1 = s\<lparr>connections := (case outcome e of Connections cs \<Rightarrow> cs),
                  resolutionCounter := resolutionCounter s + 1\<rparr>;
          s2 = fst (adapt_rate rnd (rnd (100 * t)) s1);
          s3 = (if overwriteResolver s = None then s2\<lparr>subsiquentFailures := 0\<rparr> else s2)
      in s3\<lparr>lastLookup := clock_last e\<rparr>)"
    and "Died \<notin> set (snd (run_body rnd e s))"
proof -
  from assms(1) have g: "\<not> (isPaused s \<or> rnd (clock_top e - lastLookup s) < min_wait s)"
    and t: "truthy (active_resolver s)" by (simp_all add: polls_def waits_def)
  from assms(2) obtain cs where o: "outcome e = Connections cs"
    and lt: "rnd (clock_end e - clock_start e) = t"
    by (auto simp: succeeds_def split: query_outcome.splits)
  show "fst (run_body rnd e s) =
     (let s1 = s\<lparr>connections := (case outcome e of Connections cs \<Rightarrow> cs),
                  resolutionCounter := resolutionCounter s + 1\<rparr>;
          s2 = fst (adapt_rate rnd (rnd (100 * t)) s1);
          s3 = (if overwriteResolver s = None then s2\<lparr>subsiquentFailures := 0\<rparr> else s2)
      in s3\<lparr>lastLookup := clock_last e\<rparr>)"
    unfolding run_body_def using g t o lt by (simp add: Let_def split_beta)
  show "Died \<notin> set (snd (run_body rnd e s))"
    unfolding run_body_def using g t o lt by (simp add: Let_def split_beta adapt_rate_no_Died)
qed

lemma success_slow_low:
  assumes "polls rnd e s" "succeeds rnd t e" "defaultRate s < rnd (100 * t)" "rateThresholdBroken s < 3"
  shows "defaultRate (fst (run_body rnd e s)) = defaultRate s"
    and "rateThresholdBroken (fst (run_body rnd e s)) = rateThresholdBroken s + 1"
  using assms by (simp_all add: success_step Let_def adapt_rate_def)

lemma success_slow_high:
  assumes "polls rnd e s" "succeeds rnd t e" "defaultRate s < rnd (100 * t)" "rateThresholdBroken s \<ge> 3"
  shows "defaultRate (fst (run_body rnd e s)) = rnd (rnd (100 * t) + 1/2)"
    and "rateThresholdBroken (fst (run_body rnd e s)) = rateThresholdBroken s"
  using assms by (simp_all add: success_step Let_def adapt_rate_def)

lemma success_fast:
  assumes "polls rnd e s" "succeeds rnd t e" "\<not> defaultRate s < rnd (100 * t)"
  shows "defaultRate (fst (run_body rnd e s)) = defaultRate s"
    and "rateThresholdBroken (fst (run_body rnd e s)) = 0"
  using assms by (simp_all add: success_step Let_def adapt_rate_def)

lemma run_success_step:
  assumes "polls rnd e s" "succeeds rnd t e"
  shows "fst (run rnd (e # es) s) = fst (run rnd es (fst (run_body rnd e s)))"
proof -
  obtain s1 acts where b: "run_body rnd e s = (s1, acts)" by (cases "run_body rnd e s")
  obtain s2 acts' where r: "run rnd es s1 = (s2, acts')" by (cases "run rnd es s1")
  from success_step(2) [OF assms] b have "Died \<notin> set acts" by simp
  moreover from assms(1) have "\<not> halt s" by (simp add: polls_def)
  ultimately show ?thesis using b r by simp
qed

lemma raised_stays:
  "poll_run rnd (succeeds rnd t) es s \<Longrightarrow> \<not> defaultRate s < rnd (100 * t) \<Longrightarrow>
   defaultRate (fst (run rnd es s)) = defaultRate s"
proof (induction es arbitrary: s)
  case Nil
  then show ?case by simp
next
  case (Cons e es)
  show ?case
  proof (cases "waits rnd e s")
    case True
    with Cons.prems have h: "\<not> halt s" and r: "poll_run rnd (succeeds rnd t) es s" by simp_all
    from Cons.IH [OF r Cons.prems(2)] show ?thesis unfolding wait_step [OF True h] .
  next
    case False
    with Cons.prems have p: "polls rnd e s" "succeeds rnd t e"
      and r: "poll_run rnd (succeeds rnd t) es (fst (run_body rnd e s))" by simp_all
    have d: "defaultRate (fst (run_body rnd e s)) = defaultRate s"
      using p Cons.prems(2) by (rule success_fast)
    with Cons.prems(2) have "\<not> defaultRate (fst (run_body rnd e s)) < rnd (100 * t)" by simp
    with r have "defaultRate (fst (run rnd es (fst (run_body rnd e s)))) = defaultRate (fst (run_body rnd e s))"
      by (rule Cons.IH)
    with d show ?thesis by (simp only: run_success_step [OF p])
  qed
qed

text \<open>
  Rounding to the nearest float keeps the order of the reals and leaves a float as it
  is. That is all the debounce law needs of it: the raised rate
  \<open>rnd (rnd (100 * t) + 0.5)\<close> is then not below \<open>rnd (100 * t)\<close>.
\<close>

definition rounding :: "(real \<Rightarrow> real) \<Rightarrow> bool" where
  "rounding rnd = (mono rnd \<and> (\<forall>x. rnd (rnd x) = rnd x))"

lemma rounding_raised: "rounding rnd \<Longrightarrow> \<not> rnd (rnd x + 1/2) < rnd x"
proof -
  assume r: "rounding rnd"
  have m: "mono rnd" and i: "rnd (rnd x) = rnd x" using r by (simp_all add: rounding_def)
  have "rnd x \<le> rnd x + 1/2" by simp
  from monoD [OF m this] have "rnd (rnd x) \<le> rnd (rnd x + 1/2)" .
  then have "rnd x \<le> rnd (rnd x + 1/2)" unfolding i .
  then show ?thesis by (simp only: not_less)
qed

lemma debounce_general:
  "rounding rnd \<Longrightarrow>
   poll_run rnd (succeeds rnd t) es s \<Longrightarrow> defaultRate s < rnd (100 * t) \<Longrightarrow>
   0 \<le> rateThresholdBroken s \<Longrightarrow> rateThresholdBroken s \<le> 3 \<Longrightarrow>
   defaultRate (fst (run rnd es s)) =
     (if int (cycles rnd es s) \<le> 3 - rateThresholdBroken s then defaultRate s else rnd (rnd (100 * t) + 1/2))
   \<and> (int (cycles rnd es s) \<le> 3 - rateThresholdBroken s \<longrightarrow>
        rateThresholdBroken (fst (run rnd es s)) = rateThresholdBroken s + int (cycles rnd es s))"
proof (induction es arbitrary: s)
  case Nil
  then show ?case by simp
next
  case (Cons e es)
  show ?case
  proof (cases "waits rnd e s")
    case True
    with Cons.prems have h: "\<not> halt s" and r: "poll_run rnd (succeeds rnd t) es s" by simp_all
    from True have n: "cycles rnd (e # es) s = cycles rnd es s" by simp
    from Cons.IH [OF Cons.prems(1) r Cons.prems(3,4,5)] show ?thesis
      unfolding wait_step [OF True h] n .
  next
    case nowait: False
    with Cons.prems have p: "polls rnd e s" "succeeds rnd t e"
      and r: "poll_run rnd (succeeds rnd t) es (fst (run_body rnd e s))" by simp_all
    let ?s = "fst (run_body rnd e s)"
    from nowait have n: "cycles rnd (e # es) s = Suc (cycles rnd es ?s)" by simp
    show ?thesis
    proof (cases "rateThresholdBroken s < 3")
      case True
      with p Cons.prems have d: "defaultRate ?s = defaultRate s"
        and c: "rateThresholdBroken ?s = rateThresholdBroken s + 1"
        by (simp_all add: success_slow_low)
      from r d c Cons.prems True
      have "defaultRate (fst (run rnd es ?s)) =
         (if int (cycles rnd es ?s) \<le> 3 - rateThresholdBroken ?s then defaultRate ?s else rnd (rnd (100 * t) + 1/2))
         \<and> (int (cycles rnd es ?s) \<le> 3 - rateThresholdBroken ?s \<longrightarrow>
          rateThresholdBroken (fst (run rnd es ?s)) = rateThresholdBroken ?s + int (cycles rnd es ?s))"
        by (intro Cons.IH) simp_all
      with d c show ?thesis unfolding run_success_step [OF p] n by simp
    next
      case False
      with p Cons.prems have d: "defaultRate ?s = rnd (rnd (100 * t) + 1/2)"
        by (simp add: success_slow_high)
      with Cons.prems(1) have "\<not> defaultRate ?s < rnd (100 * t)" by (simp add: rounding_raised)
      with r have "defaultRate (fst (run rnd es ?s)) = defaultRate ?s" by (rule raised_stays)
      with d False Cons.prems show ?thesis unfolding run_success_step [OF p] n by simp
    qed
  qed
qed

subsection \<open>A concrete resolver\<close>

text \<open>
  A resolver for \<open>tor\<close> as \<open>__init__\<close> leaves it, with a minimum rate of 5 seconds and
  three backends; and the environment of a pass that starts at second \<open>1000 * k\<close> and
  whose query takes \<open>d\<close> seconds. The concrete runs round to the nearest multiple of
  \<open>1/1024\<close>, halves upwards.
\<close>

definition fixed_round :: "real \<Rightarrow> real" where
  "fixed_round x = of_int \<lfloor>x * 1024 + 1/2\<rfloor> / 1024"

lemma fixed_round_rounding: "rounding fixed_round"
proof -
  have "mono fixed_round"
    unfolding fixed_round_def
    by (intro monoI divide_right_mono floor_mono of_int_le_iff [THEN iffD2] add_right_mono
          mult_right_mono) simp_all
  moreover have "\<lfloor>of_int k + (1/2::real)\<rfloor> = k" for k by linarith
  then have "fixed_round (fixed_round x) = fixed_round x" for x by (simp add: fixed_round_def)
  ultimately show ?thesis by (simp add: rounding_def)
qed

definition example_resolver :: resolver where
  "example_resolver = init_resolver 5 [''netstat'', ''ss'', ''lsof''] ''tor'' ''2001'' None None"

definition example_cycle :: "real \<Rightarrow> real \<Rightarrow> query_outcome \<Rightarrow> cycle_env" where
  "example_cycle k d out = \<lparr> clock_top = 1000 * k, clock_start = 1000 * k, clock_end = 1000 * k + d,
                    clock_last = 1000 * k + d, outcome = out \<rparr>"

definition example_wait :: "real \<Rightarrow> cycle_env" where
  \<comment> \<open>A pass one second after the one that started at second \<open>1000 * k\<close> and took two
      seconds: it waits, and reads nothing but the clock.\<close>
  "example_wait k = \<lparr> clock_top = 1000 * k + 3, clock_start = 0, clock_end = 0,
                     clock_last = 0, outcome = Uncaught \<rparr>"

lemmas example_defs = polls_def waits_def succeeds_def fails_def example_resolver_def
  init_resolver_def example_cycle_def example_wait_def run_body_def adapt_rate_def fail_over_def
  min_wait_def active_resolver_def truthy_def Let_def RESOLVER_FAILURE_TOLERANCE_def startswith_def
  fixed_round_def

subsection \<open>Claims about the adaptive rate\<close>

definition slow_run :: "cycle_env list" where
  \<comment> \<open>Four poll cycles whose queries take 2 seconds, with the waiting passes between
      them.\<close>
  "slow_run = [example_cycle 1 2 (Connections []), example_wait 1,
               example_cycle 2 2 (Connections []), example_wait 2,
               example_cycle 3 2 (Connections []), example_wait 3,
               example_cycle 4 2 (Connections [])]"

definition slower_run :: "cycle_env list" where
  \<comment> \<open>The same with queries that take 2.1 seconds, which the example rounding does not
      represent: the computed \<open>lookupTime\<close> is \<open>1075/512\<close>.\<close>
  "slower_run = [example_cycle 1 (21/10) (Connections []), example_wait 1,
                 example_cycle 2 (21/10) (Connections []), example_wait 2,
                 example_cycle 3 (21/10) (Connections []), example_wait 3,
                 example_cycle 4 (21/10) (Connections [])]"

text \<open>
  Claim C1, as the code has it. The rounding \<open>rnd\<close> keeps the order of the reals and
  leaves a float as it is. Take a run of passes, each of which waits or is a
  successful poll cycle whose computed \<open>lookupTime\<close> is \<open>t\<close>, that starts with the
  debounce counter at 0 and with the computed product \<open>rnd (100 * t)\<close> above the
  default rate. The default rate is unchanged after cycles 1, 2 and 3 (the counter is
  then 1, 2 and 3) and is the computed sum \<open>rnd (rnd (100 * t) + 0.5)\<close> from cycle 4
  on. A successful cycle on which the computed product \<open>rnd (100 * t')\<close> does not
  exceed the default rate sets the counter to 0, whatever the rounding.
\<close>

theorem debounce_law:
  "(rounding rnd \<and> poll_run rnd (succeeds rnd t) es s \<and> rateThresholdBroken s = 0
      \<and> defaultRate s < rnd (100 * t) \<longrightarrow>
      defaultRate (fst (run rnd es s)) =
        (if cycles rnd es s \<le> 3 then defaultRate s else rnd (rnd (100 * t) + 1/2))
      \<and> (cycles rnd es s \<le> 3 \<longrightarrow> rateThresholdBroken (fst (run rnd es s)) = int (cycles rnd es s)))
   \<and> (polls rnd e s' \<and> succeeds rnd t' e \<and> \<not> defaultRate s' < rnd (100 * t') \<longrightarrow>
        rateThresholdBroken (fst (run_body rnd e s')) = 0)"
proof -
  have "defaultRate (fst (run rnd es s)) =
        (if cycles rnd es s \<le> 3 then defaultRate s else rnd (rnd (100 * t) + 1/2))
      \<and> (cycles rnd es s \<le> 3 \<longrightarrow> rateThresholdBroken (fst (run rnd es s)) = int (cycles rnd es s))"
    if "rounding rnd" "poll_run rnd (succeeds rnd t) es s" "rateThresholdBroken s = 0"
      "defaultRate s < rnd (100 * t)"
    using debounce_general [OF that(1) that(2) that(4)] that(3) by simp
  moreover have "rateThresholdBroken (fst (run_body rnd e s')) = 0"
    if "polls rnd e s'" "succeeds rnd t' e" "\<not> defaultRate s' < rnd (100 * t')"
    using that by (rule success_fast)
  ultimately show ?thesis by blast
qed

theorem debounce_law_witness:
  "rounding fixed_round
   \<and> poll_run fixed_round (succeeds fixed_round 2) slow_run example_resolver
   \<and> cycles fixed_round slow_run example_resolver = 4
   \<and> defaultRate example_resolver = 5
   \<and> defaultRate (fst (run fixed_round slow_run example_resolver)) = 200.5
   \<and> rateThresholdBroken (fst (run fixed_round (take 3 slow_run) example_resolver)) = 2
   \<and> rateThresholdBroken (fst (run_body fixed_round (example_cycle 3 (1/128) (Connections []))
         (fst (run fixed_round (take 3 slow_run) example_resolver)))) = 0
   \<and> poll_run fixed_round (succeeds fixed_round (1075/512)) slower_run example_resolver
   \<and> cycles fixed_round slower_run example_resolver = 4
   \<and> defaultRate (fst (run fixed_round slower_run example_resolver)) = 26939/128
   \<and> (26939/128 :: real) \<noteq> 100 * (21/10) + 1/2"
proof -
  let ?s2 = "fst (run fixed_round (take 3 slow_run) example_resolver)"
  have h1: "poll_run fixed_round (succeeds fixed_round 2) slow_run example_resolver
      \<and> rateThresholdBroken example_resolver = 0
      \<and> defaultRate example_resolver < fixed_round (100 * 2)"
    by (simp add: example_defs slow_run_def)
  have h2: "polls fixed_round (example_cycle 3 (1/128) (Connections [])) ?s2
      \<and> succeeds fixed_round (1/128) (example_cycle 3 (1/128) (Connections []))
      \<and> \<not> defaultRate ?s2 < fixed_round (100 * (1/128))"
    by (simp add: example_defs slow_run_def)
  have h3: "rateThresholdBroken ?s2 = 2" "defaultRate example_resolver = 5"
    "cycles fixed_round slow_run example_resolver = 4"
    "fixed_round (fixed_round (100 * 2) + 1/2) = 200.5"
    by (simp_all add: example_defs slow_run_def)
  have h4: "poll_run fixed_round (succeeds fixed_round (1075/512)) slower_run example_resolver
      \<and> rateThresholdBroken example_resolver = 0
      \<and> defaultRate example_resolver < fixed_round (100 * (1075/512))"
    "cycles fixed_round slower_run example_resolver = 4"
    "fixed_round (fixed_round (100 * (1075/512)) + 1/2) = 26939/128"
    by (simp_all add: example_defs slower_run_def)
  from debounce_law [of fixed_round 2 slow_run example_resolver
      "example_cycle 3 (1/128) (Connections [])" ?s2 "1/128"]
    debounce_law [of fixed_round "1075/512" slower_run example_resolver
      "example_cycle 3 (1/128) (Connections [])" ?s2 "1/128"]
    fixed_round_rounding h1 h2 h3 h4
  show ?thesis by simp
qed

text \<open>
  Claim C1 as stated fails: after the third slow cycle of the concrete resolver (each
  query takes 2 seconds, so the product 200 is above the rate of 5) the default rate
  is still 5, not 200.5.
\<close>

theorem debounce_third_cycle_counterexample:
  "poll_run fixed_round (succeeds fixed_round 2) (take 5 slow_run) example_resolver
   \<and> cycles fixed_round (take 5 slow_run) example_resolver = 3
   \<and> rateThresholdBroken example_resolver = 0
   \<and> defaultRate example_resolver < fixed_round (100 * 2)
   \<and> defaultRate (fst (run fixed_round (take 5 slow_run) example_resolver)) = 5
   \<and> defaultRate (fst (run fixed_round (take 5 slow_run) example_resolver))
       \<noteq> fixed_round (fixed_round (100 * 2) + 1/2)"
  by (simp add: example_defs slow_run_def)

subsection \<open>Failing queries and the fallback between backends\<close>

lemma fail_over_no_Died: "Died \<notin> set (snd (fail_over r s))"
  by (simp add: fail_over_def Let_def)

lemma fail_step:
  assumes "polls rnd e s" "fails e"
  shows "fst (run_body rnd e s) =
     (if overwriteResolver s = None then fst (fail_over (the (active_resolver s)) s) else s)
       \<lparr>lastLookup := clock_last e\<rparr>"
    and "Died \<notin> set (snd (run_body rnd e s))"
proof -
  from assms(1) have g: "\<not> (isPaused s \<or> rnd (clock_top e - lastLookup s) < min_wait s)"
    and t: "truthy (active_resolver s)" by (simp_all add: polls_def waits_def)
  from assms(2) obtain msg where o: "outcome e = Raised msg"
    by (auto simp: fails_def split: query_outcome.splits)
  show "fst (run_body rnd e s) =
     (if overwriteResolver s = None then fst (fail_over (the (active_resolver s)) s) else s)
       \<lparr>lastLookup := clock_last e\<rparr>"
    unfolding run_body_def using g t o by (simp add: Let_def split_beta)
  show "Died \<notin> set (snd (run_body rnd e s))"
    unfolding run_body_def using g t o by (simp add: Let_def split_beta fail_over_no_Died)
qed

lemma run_fail_step:
  assumes "polls rnd e s" "fails e"
  shows "fst (run rnd (e # es) s) = fst (run rnd es (fst (run_body rnd e s)))"
proof -
  obtain s1 acts where b: "run_body rnd e s = (s1, acts)" by (cases "run_body rnd e s")
  obtain s2 acts' where r: "run rnd es s1 = (s2, acts')" by (cases "run rnd es s1")
  from fail_step(2) [OF assms] b have "Died \<notin> set acts" by simp
  moreover from assms(1) have "\<not> halt s" by (simp add: polls_def)
  ultimately show ?thesis using b r by simp
qed

lemma fail_count:
  assumes "polls rnd e s" "fails e" "overwriteResolver s = None"
    "subsiquentFailures s + 1 < 3"
  shows "fst (run_body rnd e s) = s\<lparr>subsiquentFailures := subsiquentFailures s + 1, lastLookup := clock_last e\<rparr>"
  using assms(3,4) unfolding fail_step(1) [OF assms(1,2)]
  by (simp add: fail_over_def RESOLVER_FAILURE_TOLERANCE_def Let_def)

lemma fail_switch:
  assumes "polls rnd e s" "fails e" "overwriteResolver s = None" "defaultResolver s = Some b"
    "subsiquentFailures s + 1 \<ge> 3"
  shows "fst (run_body rnd e s) =
     s\<lparr>subsiquentFailures := 0, resolverBlacklist := resolverBlacklist s @ [b],
       defaultResolver := List.find (\<lambda>r. r \<notin> set (resolverBlacklist s @ [b])) (resolverOptions s),
       lastLookup := clock_last e\<rparr>"
  using assms(3,4,5) unfolding fail_step(1) [OF assms(1,2)]
  by (simp add: fail_over_def RESOLVER_FAILURE_TOLERANCE_def Let_def active_resolver_def)

lemma fail_count_fields:
  assumes "polls rnd e s" "fails e" "overwriteResolver s = None" "subsiquentFailures s + 1 < 3"
  shows "overwriteResolver (fst (run_body rnd e s)) = None"
    and "defaultResolver (fst (run_body rnd e s)) = defaultResolver s"
    and "subsiquentFailures (fst (run_body rnd e s)) = subsiquentFailures s + 1"
    and "resolverBlacklist (fst (run_body rnd e s)) = resolverBlacklist s"
    and "resolverOptions (fst (run_body rnd e s)) = resolverOptions s"
  unfolding fail_count [OF assms] using assms(3) by simp_all

lemma fail_switch_fields:
  assumes "polls rnd e s" "fails e" "overwriteResolver s = None" "defaultResolver s = Some b"
    "subsiquentFailures s + 1 \<ge> 3"
  shows "subsiquentFailures (fst (run_body rnd e s)) = 0"
    and "resolverBlacklist (fst (run_body rnd e s)) = resolverBlacklist s @ [b]"
    and "defaultResolver (fst (run_body rnd e s)) =
           List.find (\<lambda>r. r \<notin> set (resolverBlacklist s @ [b])) (resolverOptions s)"
  unfolding fail_switch [OF assms] by simp_all

lemma failures_general:
  "poll_run rnd fails es s \<Longrightarrow> overwriteResolver s = None \<Longrightarrow> defaultResolver s = Some b \<Longrightarrow>
   0 \<le> subsiquentFailures s \<Longrightarrow> subsiquentFailures s < 3 \<Longrightarrow>
   int (cycles rnd es s) = 3 - subsiquentFailures s \<Longrightarrow>
   subsiquentFailures (fst (run rnd es s)) = 0
   \<and> resolverBlacklist (fst (run rnd es s)) = resolverBlacklist s @ [b]
   \<and> defaultResolver (fst (run rnd es s)) =
         List.find (\<lambda>r. r \<notin> set (resolverBlacklist s @ [b])) (resolverOptions s)"
proof (induction es arbitrary: s)
  case Nil
  then show ?case by simp
next
  case (Cons e es)
  show ?case
  proof (cases "waits rnd e s")
    case True
    with Cons.prems have h: "\<not> halt s" and r: "poll_run rnd fails es s"
      and n: "int (cycles rnd es s) = 3 - subsiquentFailures s" by simp_all
    from Cons.IH [OF r Cons.prems(2,3,4,5) n] show ?thesis unfolding wait_step [OF True h] .
  next
    case nowait: False
    with Cons.prems have p: "polls rnd e s" "fails e"
      and r: "poll_run rnd fails es (fst (run_body rnd e s))" by simp_all
    let ?s = "fst (run_body rnd e s)"
    from nowait Cons.prems(6) have n: "int (cycles rnd es ?s) = 2 - subsiquentFailures s" by simp
    show ?thesis
    proof (cases "subsiquentFailures s + 1 < 3")
      case True
      note f = fail_count_fields [OF p Cons.prems(2) True]
      from Cons.prems(3,4) True n f
      have "subsiquentFailures (fst (run rnd es ?s)) = 0
         \<and> resolverBlacklist (fst (run rnd es ?s)) = resolverBlacklist ?s @ [b]
         \<and> defaultResolver (fst (run rnd es ?s)) =
               List.find (\<lambda>r. r \<notin> set (resolverBlacklist ?s @ [b])) (resolverOptions ?s)"
        by (intro Cons.IH [OF r]) simp_all
      then show ?thesis unfolding run_fail_step [OF p] f(4,5) .
    next
      case False
      then have sw: "subsiquentFailures s + 1 \<ge> 3" by simp
      with Cons.prems(5) n have "cycles rnd es ?s = 0" by simp
      with r have "fst (run rnd es ?s) = ?s" by (rule no_cycles)
      with fail_switch_fields [OF p Cons.prems(2,3) sw] show ?thesis
        unfolding run_fail_step [OF p] by simp
    qed
  qed
qed

lemma find_none_iff: "List.find P xs = None \<longleftrightarrow> (\<forall>x \<in> set xs. \<not> P x)"
  by (auto simp: find_None_iff)

lemma no_backend_pass:
  assumes "\<not> truthy (active_resolver s)" "\<not> (isPaused s \<or> rnd (clock_top e - lastLookup s) < min_wait s)"
  shows "run_body rnd e s = (s\<lparr>lastLookup := clock_last e\<rparr>, [Skip])"
  using assms unfolding run_body_def by (simp add: Let_def)

lemma waiting_pass:
  assumes "isPaused s \<or> rnd (clock_top e - lastLookup s) < min_wait s" "\<not> halt s"
  shows "run_body rnd e s = (s, [Wait (max (rnd (2/10)) (rnd (min_wait s - rnd (clock_top e - lastLookup s))))])"
  using assms unfolding run_body_def by (simp add: Let_def)

text \<open>An action that is not a query: the loop waited, or skipped the query.\<close>

definition quiet :: "action \<Rightarrow> bool" where
  "quiet a = (case a of Wait _ \<Rightarrow> True | Skip \<Rightarrow> True | _ \<Rightarrow> False)"

lemma no_backend_body:
  assumes "\<not> truthy (active_resolver s)"
  shows "list_all quiet (snd (run_body rnd e s))"
    and "fst (run_body rnd e s) = s \<or> fst (run_body rnd e s) = s\<lparr>lastLookup := clock_last e\<rparr>"
  using assms unfolding run_body_def by (simp_all add: Let_def quiet_def)

lemma no_backend_run:
  "\<not> truthy (active_resolver s) \<Longrightarrow>
   list_all quiet (snd (run rnd es s)) \<and> \<not> truthy (active_resolver (fst (run rnd es s)))
   \<and> fst (run rnd es s) = s\<lparr>lastLookup := lastLookup (fst (run rnd es s))\<rparr>"
proof (induction es arbitrary: s)
  case Nil
  then show ?case by simp
next
  case (Cons e es)
  obtain s1 acts where b: "run_body rnd e s = (s1, acts)" by (cases "run_body rnd e s")
  obtain s2 acts' where r: "run rnd es s1 = (s2, acts')" by (cases "run rnd es s1")
  from no_backend_body [OF Cons.prems, of rnd e] b
  have q: "list_all quiet acts" and s1: "s1 = s \<or> s1 = s\<lparr>lastLookup := clock_last e\<rparr>" by simp_all
  from q have nd: "Died \<notin> set acts" by (auto simp: list_all_iff quiet_def)
  from s1 Cons.prems have a1: "\<not> truthy (active_resolver s1)" by (auto simp: active_resolver_def)
  from Cons.IH [OF a1] r have ih: "list_all quiet acts'" "\<not> truthy (active_resolver s2)"
    "s2 = s1\<lparr>lastLookup := lastLookup s2\<rparr>" by simp_all
  from ih(3) s1 have "s2 = s\<lparr>lastLookup := lastLookup s2\<rparr>"
    by (metis resolver.update_convs(6) resolver.surjective)
  with b r q nd ih Cons.prems show ?case by simp
qed


subsection \<open>Claims about failures\<close>

text \<open>
  Claim C2. With no overwrite backend, default backend \<open>b\<close> and the failure counter
  at 0, a run of passes that wait or are poll cycles whose queries fail, three of
  them poll cycles, leaves \<open>b\<close> appended to the blacklist, the counter at 0 and the
  default backend the first of the options that is not blacklisted, which is \<open>None\<close>
  when all of them are. In a state \<open>s'\<close> with no
  backend to use, a pass that does not wait only stores the time of the attempt in
  \<open>lastLookup\<close> and makes no query, and however many passes follow, none queries and no
  field but \<open>lastLookup\<close> changes.
\<close>

theorem backend_fallback:
  "(overwriteResolver s = None \<and> defaultResolver s = Some b \<and> subsiquentFailures s = 0
      \<and> poll_run rnd fails es s \<and> cycles rnd es s = 3 \<longrightarrow>
      resolverBlacklist (fst (run rnd es s)) = resolverBlacklist s @ [b]
      \<and> subsiquentFailures (fst (run rnd es s)) = 0
      \<and> defaultResolver (fst (run rnd es s)) =
            List.find (\<lambda>r. r \<notin> set (resolverBlacklist s @ [b])) (resolverOptions s)
      \<and> (set (resolverOptions s) \<subseteq> set (resolverBlacklist s @ [b]) \<longrightarrow>
            defaultResolver (fst (run rnd es s)) = None))
   \<and> (\<not> truthy (active_resolver s') \<longrightarrow>
        (\<not> (isPaused s' \<or> rnd (clock_top e - lastLookup s') < min_wait s') \<longrightarrow>
           run_body rnd e s' = (s'\<lparr>lastLookup := clock_last e\<rparr>, [Skip]))
        \<and> list_all quiet (snd (run rnd es' s'))
        \<and> fst (run rnd es' s') = s'\<lparr>lastLookup := lastLookup (fst (run rnd es' s'))\<rparr>)"
proof -
  have "resolverBlacklist (fst (run rnd es s)) = resolverBlacklist s @ [b]
      \<and> subsiquentFailures (fst (run rnd es s)) = 0
      \<and> defaultResolver (fst (run rnd es s)) =
            List.find (\<lambda>r. r \<notin> set (resolverBlacklist s @ [b])) (resolverOptions s)
      \<and> (set (resolverOptions s) \<subseteq> set (resolverBlacklist s @ [b]) \<longrightarrow>
            defaultResolver (fst (run rnd es s)) = None)"
    if "overwriteResolver s = None" "defaultResolver s = Some b" "subsiquentFailures s = 0"
      "poll_run rnd fails es s" "cycles rnd es s = 3"
  proof -
    from that have "subsiquentFailures (fst (run rnd es s)) = 0
       \<and> resolverBlacklist (fst (run rnd es s)) = resolverBlacklist s @ [b]
       \<and> defaultResolver (fst (run rnd es s)) =
         List.find (\<lambda>r. r \<notin> set (resolverBlacklist s @ [b])) (resolverOptions s)"
      by (intro failures_general) simp_all
    then show ?thesis by (auto simp: find_None_iff)
  qed
  moreover have "(\<not> (isPaused s' \<or> rnd (clock_top e - lastLookup s') < min_wait s') \<longrightarrow>
           run_body rnd e s' = (s'\<lparr>lastLookup := clock_last e\<rparr>, [Skip]))
        \<and> list_all quiet (snd (run rnd es' s'))
        \<and> fst (run rnd es' s') = s'\<lparr>lastLookup := lastLookup (fst (run rnd es' s'))\<rparr>"
    if "\<not> truthy (active_resolver s')"
    using no_backend_pass [OF that, of rnd e] no_backend_run [OF that, of rnd es'] by blast
  ultimately show ?thesis by blast
qed

text \<open>What the parts of a pass leave alone.\<close>

lemma adapt_rate_keeps:
  "defaultResolver (fst (adapt_rate rnd x s)) = defaultResolver s"
  "subsiquentFailures (fst (adapt_rate rnd x s)) = subsiquentFailures s"
  "halt (fst (adapt_rate rnd x s)) = halt s"
  "connections (fst (adapt_rate rnd x s)) = connections s"
  by (simp_all add: adapt_rate_def)

lemma fail_over_keeps:
  "halt (fst (fail_over r s)) = halt s"
  "connections (fst (fail_over r s)) = connections s"
  by (simp_all add: fail_over_def Let_def)

lemma fail_over_switch:
  "defaultResolver (fst (fail_over r s)) \<noteq> defaultResolver s \<Longrightarrow>
   subsiquentFailures (fst (fail_over r s)) = 0"
  by (simp add: fail_over_def Let_def split: if_splits)

lemma run_body_cases:
  "run_body rnd e s = (s, if halt s then [] else [Wait (max (rnd (2/10)) (rnd (min_wait s - rnd (clock_top e - lastLookup s))))])
   \<or> run_body rnd e s = (s\<lparr>lastLookup := clock_last e\<rparr>, [Skip])
   \<or> (\<exists>cs. outcome e = Connections cs \<and> fst (run_body rnd e s) =
         (let s2 = fst (adapt_rate rnd (rnd (100 * rnd (clock_end e - clock_start e)))
                     (s\<lparr>connections := cs, resolutionCounter := resolutionCounter s + 1\<rparr>))
          in (if overwriteResolver s = None then s2\<lparr>subsiquentFailures := 0\<rparr> else s2)
               \<lparr>lastLookup := clock_last e\<rparr>))
   \<or> fst (run_body rnd e s) =
         (if overwriteResolver s = None then fst (fail_over (the (active_resolver s)) s) else s)
           \<lparr>lastLookup := clock_last e\<rparr>
   \<or> run_body rnd e s = (s\<lparr>lastLookup := clock_last e\<rparr>, [Query (the (active_resolver s)), Died])"
proof (cases "isPaused s \<or> rnd (clock_top e - lastLookup s) < min_wait s")
  case True
  then show ?thesis unfolding run_body_def by (simp add: Let_def)
next
  case g: False
  show ?thesis
  proof (cases "truthy (active_resolver s)")
    case False
    with g show ?thesis unfolding run_body_def by (simp add: Let_def)
  next
    case t: True
    show ?thesis
    proof (cases "outcome e")
      case (Connections cs)
      with g t show ?thesis unfolding run_body_def by (simp add: Let_def split_beta)
    next
      case (Raised msg)
      with g t show ?thesis unfolding run_body_def by (simp add: Let_def split_beta)
    next
      case Uncaught
      with g t show ?thesis unfolding run_body_def by (simp add: Let_def split_beta)
    qed
  qed
qed

lemma run_body_halt: "halt (fst (run_body rnd e s)) = halt s"
  using run_body_cases [of rnd e s]
  by (auto simp: Let_def adapt_rate_keeps fail_over_keeps split: if_splits)

lemma run_body_switch:
  "defaultResolver (fst (run_body rnd e s)) \<noteq> defaultResolver s \<Longrightarrow>
   subsiquentFailures (fst (run_body rnd e s)) = 0"
  using run_body_cases [of rnd e s] fail_over_switch [of "the (active_resolver s)" s]
  by (auto simp: Let_def adapt_rate_keeps split: if_splits)

text \<open>
  Claim C4, as the code has it. A successful poll cycle made with the default backend
  (no overwrite backend set) leaves the failure counter at 0; one made with an
  overwrite backend leaves the counter as it was; and whenever a pass changes the
  default backend, the counter is 0 after it.
\<close>

theorem failures_reset:
  "(polls rnd e s \<and> succeeds rnd t e \<and> overwriteResolver s = None \<longrightarrow>
      subsiquentFailures (fst (run_body rnd e s)) = 0)
   \<and> (polls rnd e2 s2 \<and> succeeds rnd t2 e2 \<and> overwriteResolver s2 \<noteq> None \<longrightarrow>
      subsiquentFailures (fst (run_body rnd e2 s2)) = subsiquentFailures s2)
   \<and> (defaultResolver (fst (run_body rnd e' s')) \<noteq> defaultResolver s' \<longrightarrow>
      subsiquentFailures (fst (run_body rnd e' s')) = 0)"
proof -
  have "subsiquentFailures (fst (run_body rnd e s)) =
      (if overwriteResolver s = None then 0 else subsiquentFailures s)"
    if "polls rnd e s" "succeeds rnd t e" for e s t
    unfolding success_step(1) [OF that] by (simp add: Let_def adapt_rate_keeps)
  from this [of e s t] this [of e2 s2 t2] show ?thesis using run_body_switch [of rnd e' s'] by auto
qed


text \<open>
  Concrete failures: a pass whose query raises, a resolver with one backend only, and
  the three-backend resolver after two failed cycles.
\<close>

definition failing_cycle :: "real \<Rightarrow> cycle_env" where
  "failing_cycle k = example_cycle k 2 (Raised ''No results found using: netstat'')"

definition single_resolver :: resolver where
  "single_resolver = init_resolver 5 [''netstat''] ''tor'' ''2001'' None None"

lemmas example_defs2 = example_defs failing_cycle_def single_resolver_def

definition failing_run :: "cycle_env list" where
  \<comment> \<open>Three poll cycles whose queries fail, with the waiting passes between them.\<close>
  "failing_run = [failing_cycle 1, example_wait 1, failing_cycle 2, example_wait 2,
                  failing_cycle 3]"

theorem backend_fallback_witness:
  "poll_run fixed_round fails failing_run single_resolver \<and> cycles fixed_round failing_run single_resolver = 3
   \<and> fst (run fixed_round failing_run single_resolver) =
        single_resolver\<lparr>lastLookup := 3002, resolverBlacklist := [''netstat''], defaultResolver := None\<rparr>
   \<and> run fixed_round [example_wait 3, failing_cycle 4, failing_cycle 5] (fst (run fixed_round failing_run single_resolver)) =
        (single_resolver\<lparr>lastLookup := 5002, resolverBlacklist := [''netstat''], defaultResolver := None\<rparr>,
         [Wait 4, Skip, Skip])
   \<and> fst (run fixed_round failing_run example_resolver) =
        example_resolver\<lparr>lastLookup := 3002, resolverBlacklist := [''netstat''], defaultResolver := Some ''ss''\<rparr>"
proof -
  let ?s = "fst (run fixed_round failing_run single_resolver)"
  have h1: "overwriteResolver single_resolver = None \<and> defaultResolver single_resolver = Some ''netstat''
      \<and> subsiquentFailures single_resolver = 0
      \<and> poll_run fixed_round fails failing_run single_resolver \<and> cycles fixed_round failing_run single_resolver = 3"
    by (simp add: example_defs2 failing_run_def)
  have h2: "set (resolverOptions single_resolver) \<subseteq> set (resolverBlacklist single_resolver @ [''netstat''])"
    by (simp add: example_defs2)
  have v: "?s = single_resolver\<lparr>lastLookup := 3002, resolverBlacklist := [''netstat''], defaultResolver := None\<rparr>"
    by (simp add: example_defs2 failing_run_def)
  have h3: "\<not> truthy (active_resolver ?s)
      \<and> \<not> (isPaused ?s \<or> fixed_round (clock_top (failing_cycle 4) - lastLookup ?s) < min_wait ?s)"
    unfolding v by (simp add: example_defs2)
  have v2: "fst (run fixed_round failing_run example_resolver) =
        example_resolver\<lparr>lastLookup := 3002, resolverBlacklist := [''netstat''], defaultResolver := Some ''ss''\<rparr>"
    by (simp add: example_defs2 failing_run_def)
  have v3: "run fixed_round [example_wait 3, failing_cycle 4, failing_cycle 5] ?s =
        (single_resolver\<lparr>lastLookup := 5002, resolverBlacklist := [''netstat''], defaultResolver := None\<rparr>,
         [Wait 4, Skip, Skip])"
    unfolding v by (simp add: example_defs2)
  from backend_fallback [of single_resolver "''netstat''" fixed_round failing_run ?s "failing_cycle 4"
      "[example_wait 3, failing_cycle 4, failing_cycle 5]"] h1 h2 h3 v v2 v3
  show ?thesis by simp
qed

definition after_two_failures :: resolver where
  "after_two_failures = fst (run fixed_round [failing_cycle 1, failing_cycle 2] example_resolver)"

lemma after_two_failures_eq:
  "after_two_failures = example_resolver\<lparr>lastLookup := 2002, subsiquentFailures := 2\<rparr>"
  by (simp add: example_defs2 after_two_failures_def)

theorem failures_reset_witness:
  "subsiquentFailures after_two_failures = 2
   \<and> subsiquentFailures (fst (run_body fixed_round (example_cycle 3 2 (Connections [])) after_two_failures)) = 0
   \<and> subsiquentFailures (fst (run_body fixed_round (example_cycle 3 2 (Connections []))
         (setOverwriteResolver (Some ''lsof'') after_two_failures))) = 2
   \<and> defaultResolver (fst (run_body fixed_round (failing_cycle 3) after_two_failures)) = Some ''ss''
   \<and> subsiquentFailures (fst (run_body fixed_round (failing_cycle 3) after_two_failures)) = 0"
proof -
  let ?s = "after_two_failures"
  let ?e = "example_cycle 3 2 (Connections [])"
  note v = after_two_failures_eq
  have h0: "subsiquentFailures ?s = 2" unfolding v by simp
  have h1: "polls fixed_round ?e ?s \<and> succeeds fixed_round 2 ?e \<and> overwriteResolver ?s = None"
    unfolding v by (simp add: example_defs2)
  have h2: "polls fixed_round ?e (setOverwriteResolver (Some ''lsof'') ?s) \<and> succeeds fixed_round 2 ?e
      \<and> overwriteResolver (setOverwriteResolver (Some ''lsof'') ?s) \<noteq> None"
    unfolding v by (simp add: example_defs2 setOverwriteResolver_def)
  have h3: "defaultResolver (fst (run_body fixed_round (failing_cycle 3) ?s)) = Some ''ss''"
    and h4: "defaultResolver ?s = Some ''netstat''"
    unfolding v by (simp_all add: example_defs2)
  have h5: "subsiquentFailures (setOverwriteResolver (Some ''lsof'') ?s) = 2"
    unfolding v by (simp add: setOverwriteResolver_def)
  from h3 h4 have h6: "defaultResolver (fst (run_body fixed_round (failing_cycle 3) ?s)) \<noteq> defaultResolver ?s"
    by simp
  from failures_reset [of fixed_round ?e ?s 2 ?e "setOverwriteResolver (Some ''lsof'') ?s" 2 "failing_cycle 3" ?s]
    h0 h1 h2 h3 h5 h6
  show ?thesis by metis
qed

text \<open>
  Claim C4 as stated fails for an overwrite backend: after two failures of the default
  backend the counter is 2, and a successful query with the overwrite backend
  \<open>lsof\<close> leaves it there.
\<close>

theorem overwrite_success_counterexample:
  "polls fixed_round (example_cycle 3 2 (Connections [])) (setOverwriteResolver (Some ''lsof'') after_two_failures)
   \<and> succeeds fixed_round 2 (example_cycle 3 2 (Connections []))
   \<and> snd (run_body fixed_round (example_cycle 3 2 (Connections []))
        (setOverwriteResolver (Some ''lsof'') after_two_failures)) = [Query ''lsof'']
   \<and> subsiquentFailures (fst (run_body fixed_round (example_cycle 3 2 (Connections []))
        (setOverwriteResolver (Some ''lsof'') after_two_failures))) \<noteq> 0"
  by (simp add: example_defs2 setOverwriteResolver_def after_two_failures_def)


subsection \<open>Claims about \<open>getConnections\<close> and \<open>stop\<close>\<close>

text \<open>
  What can happen to a resolver after \<open>stop()\<close>: calls of its methods, and passes of the
  loop body (the pass in progress when \<open>stop()\<close> is called still runs to its end).
\<close>

datatype call =
    Call_stop
  | Call_setPid string
  | Call_setPaused bool
  | Call_setOverwriteResolver "string option"
  | Loop_pass cycle_env

fun after_call :: "(real \<Rightarrow> real) \<Rightarrow> call \<Rightarrow> resolver \<Rightarrow> resolver" where
  "after_call rnd Call_stop s = stop s"
| "after_call rnd (Call_setPid pid) s = setPid pid s"
| "after_call rnd (Call_setPaused p) s = setPaused p s"
| "after_call rnd (Call_setOverwriteResolver r) s = setOverwriteResolver r s"
| "after_call rnd (Loop_pass e) s = fst (run_body rnd e s)"

lemma after_call_halt: "halt s \<Longrightarrow> halt (after_call rnd c s)"
  by (cases c) (simp_all add: stop_def setPid_def setPaused_def setOverwriteResolver_def run_body_halt)

lemma fold_after_call_halt: "halt s \<Longrightarrow> halt (fold (after_call rnd) calls s)"
  by (induction calls arbitrary: s) (simp_all add: after_call_halt)

lemma success_connections:
  assumes "polls rnd e s" "outcome e = Connections cs"
  shows "connections (fst (run_body rnd e s)) = cs"
proof -
  from assms(2) have "succeeds rnd (rnd (clock_end e - clock_start e)) e" by (simp add: succeeds_def)
  from success_step(1) [OF assms(1) this] assms(2) show ?thesis
    by (simp add: Let_def adapt_rate_keeps)
qed

text \<open>
  Claim C6. After \<open>stop()\<close>, and whatever calls and loop passes follow it,
  \<open>getConnections\<close> returns the empty list. On a resolver that is not halted it returns
  the cached list, which after a successful poll cycle is the result of that query.
  \<open>getConnections\<close> takes no lock and raises nothing: it is a total function of the
  resolver's fields, and the list it returns is a value of its own.
\<close>

theorem getConnections_after_stop:
  "getConnections (fold (after_call rnd) calls (stop s)) = []
   \<and> (\<not> halt s' \<longrightarrow> getConnections s' = connections s')
   \<and> (polls rnd e s' \<and> outcome e = Connections cs \<longrightarrow> getConnections (fst (run_body rnd e s')) = cs)"
proof -
  have "halt (stop s)" by (simp add: stop_def)
  then have "halt (fold (after_call rnd) calls (stop s))" by (rule fold_after_call_halt)
  then have a: "getConnections (fold (after_call rnd) calls (stop s)) = []"
    by (simp add: getConnections_def)
  have b: "getConnections (fst (run_body rnd e s')) = cs" if "polls rnd e s'" "outcome e = Connections cs"
  proof -
    from that(1) have "\<not> halt s'" by (simp add: polls_def)
    then have "\<not> halt (fst (run_body rnd e s'))" by (simp add: run_body_halt)
    then show ?thesis using success_connections [OF that] by (simp add: getConnections_def)
  qed
  from a b show ?thesis by (auto simp: getConnections_def)
qed

definition example_conns :: "conn list" where
  "example_conns = [(''127.0.0.1'', 9051, ''127.0.0.1'', 37277), (''10.0.0.2'', 51849, ''86.59.21.38'', 443)]"

theorem getConnections_after_stop_witness:
  "getConnections example_resolver = []
   \<and> getConnections (fst (run_body fixed_round (example_cycle 1 2 (Connections example_conns)) example_resolver))
       = example_conns
   \<and> getConnections (stop (fst (run_body fixed_round (example_cycle 1 2 (Connections example_conns)) example_resolver)))
       = []
   \<and> getConnections (fold (after_call fixed_round)
         [Loop_pass (example_cycle 2 2 (Connections example_conns)), Call_setPaused True, Call_stop]
         (stop (fst (run_body fixed_round (example_cycle 1 2 (Connections example_conns)) example_resolver)))) = []"
proof -
  let ?e = "example_cycle 1 2 (Connections example_conns)"
  have h1: "\<not> halt example_resolver" "connections example_resolver = []"
    by (simp_all add: example_defs2)
  have h2: "polls fixed_round ?e example_resolver \<and> outcome ?e = Connections example_conns"
    by (simp add: example_defs2)
  from getConnections_after_stop [of fixed_round "[]" "fst (run_body fixed_round ?e example_resolver)" example_resolver ?e example_conns]
    getConnections_after_stop [of fixed_round "[Loop_pass (example_cycle 2 2 (Connections example_conns)), Call_setPaused True, Call_stop]"
       "fst (run_body fixed_round ?e example_resolver)" example_resolver ?e example_conns]
    h1 h2
  show ?thesis by (simp del: after_call.simps)
qed


section \<open>Application Resolver: \<open>AppResolver\<close>\<close>

text \<open>
  An entry is the tuple \<open>(iPort, oPort, cmd, pid)\<close>, all strings cut out of a line of
  \<open>lsof\<close>. The cache \<open>queryResults\<close> is a dict from ports to lists of entries; its keys
  are whatever the caller passed as ports, so they are \<open>pykey\<close>s, and a port read from
  \<open>lsof\<close> is a string. Lists are modelled as values: line 463 puts the cached list
  itself into the worker's results and line 504 may append to it in place, which a
  value does not show. The difference is visible only to whoever still holds that
  list: a caller with an earlier result of \<open>getResults\<close>, another thread that copied
  it, or the cache when an exception ends the parse half way. A resolution of a
  single port never appends to a list it copied (the port is either found in the
  cache, and then \<open>lsof\<close> is not called, or not found, and then nothing is copied),
  and a query that finds nothing is not parsed. The statements below are about the
  failure counter, the in-flight flag and the blocked callers, which no list
  touches, and about the cache for resolutions of no port or of a single port, so
  they do not depend on it.
\<close>

type_synonym entry = "string \<times> string \<times> string \<times> string"

type_synonym results = "pykey \<rightharpoonup> entry list"

record app_resolver =
  scriptName :: string
  queryResults :: results
  isResolving :: bool
  failureCount :: int

definition init_app_resolver :: "string \<Rightarrow> app_resolver" where
  "init_app_resolver name =
     \<lparr> scriptName = name, queryResults = Map.empty, isResolving = False, failureCount = 0 \<rparr>"

subsection \<open>String functions of the parser\<close>

fun split_ws_acc :: "string \<Rightarrow> string \<Rightarrow> string list" where
  "split_ws_acc w [] = (if w = [] then [] else [w])"
| "split_ws_acc w (c # cs) =
     (if isspace c then (if w = [] then split_ws_acc [] cs else w # split_ws_acc [] cs)
      else split_ws_acc (w @ [c]) cs)"

definition split_ws :: "string \<Rightarrow> string list" where
  \<comment> \<open>\<open>line.split()\<close>: the words between runs of whitespace.\<close>
  "split_ws s = split_ws_acc [] s"

fun has_arrow :: "string \<Rightarrow> bool" where
  \<comment> \<open>\<open>"->" in s\<close>\<close>
  "has_arrow (c # d # ds) = ((c = CHR ''-'' \<and> d = CHR ''>'') \<or> has_arrow (d # ds))"
| "has_arrow _ = False"

fun split_arrow :: "string \<Rightarrow> string list" where
  \<comment> \<open>\<open>s.split("->")\<close>\<close>
  "split_arrow [] = [[]]"
| "split_arrow [c] = [[c]]"
| "split_arrow (c # d # ds) =
     (if c = CHR ''-'' \<and> d = CHR ''>'' then [] # split_arrow ds
      else (case split_arrow (d # ds) of
              r # rs \<Rightarrow> (c # r) # rs
            | [] \<Rightarrow> [[c]]))"

fun split_char :: "char \<Rightarrow> string \<Rightarrow> string list" where
  \<comment> \<open>\<open>s.split(c)\<close> for a one-character \<open>c\<close>\<close>
  "split_char sep [] = [[]]"
| "split_char sep (c # cs) =
     (if c = sep then [] # split_char sep cs
      else (case split_char sep cs of
              r # rs \<Rightarrow> (c # r) # rs
            | [] \<Rightarrow> [[c]]))"

fun join :: "string \<Rightarrow> string list \<Rightarrow> string" where
  \<comment> \<open>\<open>sep.join(xs)\<close>\<close>
  "join sep [] = []"
| "join sep [x] = x"
| "join sep (x # y # ys) = x @ sep @ join sep (y # ys)"

definition format_port :: "pykey \<Rightarrow> string" where
  \<comment> \<open>\<open>"%s" % port\<close>\<close>
  "format_port port = (case port of PInt n \<Rightarrow> py_str n | PStr s \<Rightarrow> s)"

subsection \<open>\<open>resolve\<close> and the parts of \<open>_queryApplications\<close>\<close>

definition resolve :: "pykey list \<Rightarrow> app_resolver \<Rightarrow> app_resolver \<times> pykey list option" where
  \<comment> \<open>Lines 419 to 423. The second component is the thread the call starts, given by
      the ports it is to resolve, or \<open>None\<close> when the call starts none.\<close>
  "resolve ports s =
     (if failureCount s < 3 then (s\<lparr>isResolving := True\<rparr>, Some ports) else (s, None))"

definition partition_ports :: "results \<Rightarrow> pykey list \<Rightarrow> results \<times> string list" where
  \<comment> \<open>Lines 453 to 464: the ports found in the cache are copied from it, the others
      become arguments of \<open>lsof\<close>.\<close>
  "partition_ports cache ports =
     fold (\<lambda>port (res, lsofArgs).
             case cache port of
               Some es \<Rightarrow> (res(port \<mapsto> es), lsofArgs)
             | None \<Rightarrow> (res, lsofArgs @ [''-i tcp:'' @ format_port port]))
          ports (Map.empty, [])"

definition lsof_command :: "string list \<Rightarrow> string" where
  "lsof_command lsofArgs = ''lsof -nP '' @ join '' '' lsofArgs"

definition add_entry :: "pykey list \<Rightarrow> entry \<Rightarrow> string \<Rightarrow> results \<Rightarrow> results" where
  \<comment> \<open>Lines 502 to 505, for one \<open>portMatch\<close>.\<close>
  "add_entry ports newEntry portMatch res =
     (if PStr portMatch \<in> set ports then
        (case res (PStr portMatch) of
           Some es \<Rightarrow> res(PStr portMatch \<mapsto> es @ [newEntry])
         | None \<Rightarrow> res(PStr portMatch \<mapsto> [newEntry]))
      else res)"

definition parse_line ::
  "string \<Rightarrow> string \<Rightarrow> pykey list \<Rightarrow> string \<Rightarrow> results \<times> (string \<times> string) option
     \<Rightarrow> py_exn + (results \<times> (string \<times> string) option)" where
  \<comment> \<open>Lines 481 to 505: one line of the output. \<open>ourPid\<close> is \<open>str(os.getpid())\<close>. The
      unpacking of line 487 raises \<open>ValueError\<close> unless there are two parts, and the
      indexing of lines 488 and 489 raises \<open>IndexError\<close> when a part has no colon.\<close>
  "parse_line name ourPid ports line st =
     (let (res, ourConnection) = st;
          lineComp = split_ws line
      in if length lineComp = 10 \<and> lineComp ! 9 = ''(ESTABLISHED)'' then
           (let cmd = lineComp ! 0; pid = lineComp ! 1; portMap = lineComp ! 8
            in if has_arrow portMap then
                 (case split_arrow portMap of
                    [iAddr, oAddr] \<Rightarrow>
                      (case (split_char CHR '':'' iAddr, split_char CHR '':'' oAddr) of
                         (_ # iPort # _, _ # oPort # _) \<Rightarrow>
                           (let cmd' = (if pid = ourPid then name else cmd);
                                ourConnection' = (if pid = ourPid then Some (iPort, oPort)
                                                  else ourConnection)
                            in if isdigit iPort \<and> isdigit oPort then
                                 (let newEntry = (iPort, oPort, cmd', pid)
                                  in Inr (add_entry ports newEntry oPort
                                            (add_entry ports newEntry iPort res),
                                          ourConnection'))
                               else Inr (res, ourConnection'))
                       | _ \<Rightarrow> Inl IndexError)
                  | _ \<Rightarrow> Inl ValueError)
               else Inr st)
         else Inr st)"

fun parse_lines ::
  "string \<Rightarrow> string \<Rightarrow> pykey list \<Rightarrow> string list \<Rightarrow> results \<times> (string \<times> string) option
     \<Rightarrow> py_exn + (results \<times> (string \<times> string) option)" where
  \<comment> \<open>The loop of line 480.\<close>
  "parse_lines name ourPid ports [] st = Inr st"
| "parse_lines name ourPid ports (line # rest) st =
     (case parse_line name ourPid ports line st of
        Inl e \<Rightarrow> Inl e
      | Inr st' \<Rightarrow> parse_lines name ourPid ports rest st')"

fun remove_sh :: "entry list \<Rightarrow> entry list" where
  \<comment> \<open>Lines 511 to 519: the first entry whose command is \<open>sh\<close> is deleted.\<close>
  "remove_sh [] = []"
| "remove_sh ((iPort, oPort, cmd, pid) # es) =
     (if cmd = ''sh'' then es else (iPort, oPort, cmd, pid) # remove_sh es)"

definition drop_sh :: "string \<Rightarrow> results \<Rightarrow> results" where
  \<comment> \<open>Lines 510 to 519, for one \<open>ourPort\<close>.\<close>
  "drop_sh ourPort res =
     (case res (PStr ourPort) of
        Some es \<Rightarrow> res(PStr ourPort \<mapsto> remove_sh es)
      | None \<Rightarrow> res)"

definition parse_lsof ::
  "string \<Rightarrow> string \<Rightarrow> pykey list \<Rightarrow> string list \<Rightarrow> results \<Rightarrow> py_exn + results" where
  \<comment> \<open>Lines 477 to 519.\<close>
  "parse_lsof name ourPid ports lsofResults res =
     (case parse_lines name ourPid ports lsofResults (res, None) of
        Inl e \<Rightarrow> Inl e
      | Inr (res', None) \<Rightarrow> Inr res'
      | Inr (res', Some (iPort, oPort)) \<Rightarrow> Inr (drop_sh oPort (drop_sh iPort res')))"

text \<open>How a call of \<open>_queryApplications\<close> ends.\<close>

datatype ending =
    Notified          \<comment> \<open>it returned after \<open>self._cond.notifyAll()\<close>\<close>
  | Silent            \<comment> \<open>it returned without notifying\<close>
  | Raised_exn py_exn \<comment> \<open>an exception ended the thread\<close>

definition falsy :: "string list option \<Rightarrow> bool" where
  \<comment> \<open>\<open>not lsofResults\<close>: \<open>None\<close> and the empty list are false.\<close>
  "falsy r = (case r of None \<Rightarrow> True | Some ls \<Rightarrow> ls = [])"

definition finish_query ::
  "string \<Rightarrow> pykey list \<Rightarrow> results \<Rightarrow> string list option \<Rightarrow> app_resolver
     \<Rightarrow> app_resolver \<times> ending" where
  \<comment> \<open>Lines 470 to 530: what follows the call of \<open>lsof\<close>, given the results built so
      far and what the call returned (\<open>None\<close> also when no call was made).\<close>
  "finish_query ourPid ports res lsofResults s =
     (if falsy lsofResults \<and> failureCount s \<noteq> -1 then
        (s\<lparr>failureCount := failureCount s + 1, isResolving := False\<rparr>, Silent)
      else
        (case (if \<not> falsy lsofResults
               then parse_lsof (scriptName s) ourPid ports (the lsofResults) res
               else Inr res) of
           Inl e \<Rightarrow> (s, Raised_exn e)
         | Inr res' \<Rightarrow>
             (s\<lparr>failureCount := -1, queryResults := res', isResolving := False\<rparr>, Notified)))"

definition queryApplications ::
  "string \<Rightarrow> (string \<Rightarrow> string list option) \<Rightarrow> pykey list \<Rightarrow> app_resolver
     \<Rightarrow> app_resolver \<times> ending" where
  \<comment> \<open>\<open>_queryApplications\<close> run from start to end with nothing in between;
      \<open>call\<close> is \<open>system.call\<close>.\<close>
  "queryApplications ourPid call ports s =
     (if ports = [] then (s\<lparr>queryResults := Map.empty, isResolving := False\<rparr>, Notified)
      else
        (let (res, lsofArgs) = partition_ports (queryResults s) ports;
             lsofResults = (if lsofArgs \<noteq> [] then call (lsof_command lsofArgs) else None)
         in finish_query ourPid ports res lsofResults s))"


subsection \<open>The resolver with its threads\<close>

text \<open>
  \<open>resolve\<close> starts a thread that runs \<open>_queryApplications\<close>, and nothing keeps two of
  these threads, or a thread and a caller of \<open>resolve\<close>, apart: the test of line 419,
  the reads of lines 462, 463 and 470 and the writes of lines 420, 473 and 474 take no
  lock. So a thread is followed statement by statement. Its state says where it is,
  with the values of its own variables, and a step of it runs up to its next read or
  write of a field of the resolver: a step has at most one such access, or takes or
  releases \<open>resultsLock\<close>, or notifies (\<open>scriptName\<close>, which nothing writes after
  \<open>__init__\<close>, is read freely). Line 473, \<open>self.failureCount += 1\<close>, reads the counter
  and writes it, and is two steps. The part of \<open>resolve\<close> that follows the test of line
  419 is run by the caller; it is the first step of the thread the call adds. A caller
  of \<open>getResults\<close> tests the flag and waits while it holds the lock of the condition,
  so no notification falls between the two. \<open>system.call\<close> returns the lines of the
  output, or \<open>None\<close>. The state of the whole adds to the resolver's fields the threads,
  the number of callers blocked in \<open>self._cond.wait\<close>, and the thread that holds
  \<open>resultsLock\<close>.
\<close>

datatype worker =
    Spawning "pykey list"     \<comment> \<open>line 419 passed: lines 420 to 423 are still to run\<close>
  | Started "pykey list"      \<comment> \<open>the thread is at line 440\<close>
  | Empty_acquire             \<comment> \<open>at line 441\<close>
  | Empty_clear               \<comment> \<open>at line 442, holding the lock\<close>
  | Empty_flag                \<comment> \<open>at line 443\<close>
  | Empty_release             \<comment> \<open>at line 444\<close>
  | Empty_notify              \<comment> \<open>at lines 447 to 449\<close>
  | Checking "pykey list" "pykey list" results "string list"
      \<comment> \<open>at line 462 for the first of the ports still to visit (at line 466 when none is
          left): \<open>ports\<close>, the ports still to visit, \<open>results\<close>, \<open>lsofArgs\<close>\<close>
  | Copying "pykey list" "pykey list" results "string list"
      \<comment> \<open>at line 463 for the first of the ports still to visit\<close>
  | Calling "pykey list" results "string list"
      \<comment> \<open>in \<open>system.call\<close>, line 467: \<open>ports\<close>, \<open>results\<close>, \<open>lsofArgs\<close>\<close>
  | Testing "pykey list" results "string list option"
      \<comment> \<open>at line 470: \<open>ports\<close>, \<open>results\<close>, \<open>lsofResults\<close>\<close>
  | Count_load                \<comment> \<open>at line 473, before the counter is read\<close>
  | Count_store int           \<comment> \<open>at line 473, with the counter that was read\<close>
  | Clearing                  \<comment> \<open>at line 474\<close>
  | Acquiring results         \<comment> \<open>at line 521, with the \<open>results\<close> to install\<close>
  | Store_count results       \<comment> \<open>at line 522, holding the lock\<close>
  | Store_cache results       \<comment> \<open>at line 523\<close>
  | Store_flag                \<comment> \<open>at line 524\<close>
  | Releasing                 \<comment> \<open>at line 525\<close>
  | Notifying                 \<comment> \<open>at lines 528 to 530\<close>
  | Finished
  | Crashed py_exn            \<comment> \<open>an exception ended the thread\<close>

record app_sys =
  app :: app_resolver
  threads :: "worker list"
  blocked :: nat
  lock :: "nat option"

datatype event =
    Resolve "pykey list"              \<comment> \<open>a call of \<open>resolve(ports)\<close> makes the test of line 419\<close>
  | Step nat                          \<comment> \<open>the next step of a thread\<close>
  | Return nat "string list option"   \<comment> \<open>\<open>system.call\<close> returns to a thread\<close>
  | GetResults real                   \<comment> \<open>a call of \<open>getResults(maxWait)\<close> runs lines 399 to 401\<close>
  | WaitOver                          \<comment> \<open>the wait of a blocked caller times out\<close>

definition in_flight :: "worker \<Rightarrow> bool" where
  "in_flight w = (case w of Finished \<Rightarrow> False | Crashed _ \<Rightarrow> False | _ \<Rightarrow> True)"

definition init_app_sys :: "string \<Rightarrow> app_sys" where
  "init_app_sys name = \<lparr> app = init_app_resolver name, threads = [], blocked = 0, lock = None \<rparr>"

definition goto :: "nat \<Rightarrow> worker \<Rightarrow> app_sys \<Rightarrow> app_sys" where
  \<comment> \<open>Thread \<open>i\<close> moves on.\<close>
  "goto i w \<sigma> = \<sigma>\<lparr>threads := (threads \<sigma>)[i := w]\<rparr>"

fun worker_step :: "string \<Rightarrow> nat \<Rightarrow> worker \<Rightarrow> app_sys \<Rightarrow> app_sys" where
  \<comment> \<open>The next step of thread \<open>i\<close>, which is in the given state. A thread that waits for
      \<open>resultsLock\<close>, or for \<open>system.call\<close> to return, does not move.\<close>
  "worker_step ourPid i (Spawning ports) \<sigma> =
     goto i (Started ports) (\<sigma>\<lparr>app := (app \<sigma>)\<lparr>isResolving := True\<rparr>\<rparr>)"
| "worker_step ourPid i (Started ports) \<sigma> =
     goto i (if ports = [] then Empty_acquire else Checking ports ports Map.empty []) \<sigma>"
| "worker_step ourPid i Empty_acquire \<sigma> =
     (if lock \<sigma> = None then goto i Empty_clear (\<sigma>\<lparr>lock := Some i\<rparr>) else \<sigma>)"
| "worker_step ourPid i Empty_clear \<sigma> =
     goto i Empty_flag (\<sigma>\<lparr>app := (app \<sigma>)\<lparr>queryResults := Map.empty\<rparr>\<rparr>)"
| "worker_step ourPid i Empty_flag \<sigma> =
     goto i Empty_release (\<sigma>\<lparr>app := (app \<sigma>)\<lparr>isResolving := False\<rparr>\<rparr>)"
| "worker_step ourPid i Empty_release \<sigma> = goto i Empty_notify (\<sigma>\<lparr>lock := None\<rparr>)"
| "worker_step ourPid i Empty_notify \<sigma> = goto i Finished (\<sigma>\<lparr>blocked := 0\<rparr>)"
| "worker_step ourPid i (Checking ports [] res lsofArgs) \<sigma> =
     goto i (if lsofArgs \<noteq> [] then Calling ports res lsofArgs else Testing ports res None) \<sigma>"
| "worker_step ourPid i (Checking ports (port # rest) res lsofArgs) \<sigma> =
     goto i (if queryResults (app \<sigma>) port \<noteq> None then Copying ports (port # rest) res lsofArgs
             else Checking ports rest res (lsofArgs @ [''-i tcp:'' @ format_port port])) \<sigma>"
| "worker_step ourPid i (Copying ports [] res lsofArgs) \<sigma> = \<sigma>"
| "worker_step ourPid i (Copying ports (port # rest) res lsofArgs) \<sigma> =
     goto i (case queryResults (app \<sigma>) port of
               Some es \<Rightarrow> Checking ports rest (res(port \<mapsto> es)) lsofArgs
             | None \<Rightarrow> Crashed KeyError) \<sigma>"
| "worker_step ourPid i (Calling ports res lsofArgs) \<sigma> = \<sigma>"
| "worker_step ourPid i (Testing ports res lsofResults) \<sigma> =
     goto i (if falsy lsofResults \<and> failureCount (app \<sigma>) \<noteq> -1 then Count_load
             else (case (if \<not> falsy lsofResults
                         then parse_lsof (scriptName (app \<sigma>)) ourPid ports (the lsofResults) res
                         else Inr res) of
                     Inl e \<Rightarrow> Crashed e
                   | Inr res' \<Rightarrow> Acquiring res')) \<sigma>"
| "worker_step ourPid i Count_load \<sigma> = goto i (Count_store (failureCount (app \<sigma>))) \<sigma>"
| "worker_step ourPid i (Count_store n) \<sigma> =
     goto i Clearing (\<sigma>\<lparr>app := (app \<sigma>)\<lparr>failureCount := n + 1\<rparr>\<rparr>)"
| "worker_step ourPid i Clearing \<sigma> =
     goto i Finished (\<sigma>\<lparr>app := (app \<sigma>)\<lparr>isResolving := False\<rparr>\<rparr>)"
| "worker_step ourPid i (Acquiring res) \<sigma> =
     (if lock \<sigma> = None then goto i (Store_count res) (\<sigma>\<lparr>lock := Some i\<rparr>) else \<sigma>)"
| "worker_step ourPid i (Store_count res) \<sigma> =
     goto i (Store_cache res) (\<sigma>\<lparr>app := (app \<sigma>)\<lparr>failureCount := -1\<rparr>\<rparr>)"
| "worker_step ourPid i (Store_cache res) \<sigma> =
     goto i Store_flag (\<sigma>\<lparr>app := (app \<sigma>)\<lparr>queryResults := res\<rparr>\<rparr>)"
| "worker_step ourPid i Store_flag \<sigma> =
     goto i Releasing (\<sigma>\<lparr>app := (app \<sigma>)\<lparr>isResolving := False\<rparr>\<rparr>)"
| "worker_step ourPid i Releasing \<sigma> = goto i Notifying (\<sigma>\<lparr>lock := None\<rparr>)"
| "worker_step ourPid i Notifying \<sigma> = goto i Finished (\<sigma>\<lparr>blocked := 0\<rparr>)"
| "worker_step ourPid i Finished \<sigma> = \<sigma>"
| "worker_step ourPid i (Crashed e) \<sigma> = \<sigma>"

definition app_step :: "string \<Rightarrow> event \<Rightarrow> app_sys \<Rightarrow> app_sys" where
  \<comment> \<open>An event that cannot happen in a state (a step of a thread that does not exist,
      the return of a call that was not made) leaves the state as it is.\<close>
  "app_step ourPid ev \<sigma> =
     (case ev of
        Resolve ports \<Rightarrow>
          (if failureCount (app \<sigma>) < 3 then \<sigma>\<lparr>threads := threads \<sigma> @ [Spawning ports]\<rparr> else \<sigma>)
      | Step i \<Rightarrow>
          (if i < length (threads \<sigma>) then worker_step ourPid i (threads \<sigma> ! i) \<sigma> else \<sigma>)
      | Return i out \<Rightarrow>
          (if i < length (threads \<sigma>) then
             (case threads \<sigma> ! i of
                Calling ports res lsofArgs \<Rightarrow> goto i (Testing ports res out) \<sigma>
              | _ \<Rightarrow> \<sigma>)
           else \<sigma>)
      | GetResults maxWait \<Rightarrow>
          (if isResolving (app \<sigma>) \<and> maxWait > 0 then \<sigma>\<lparr>blocked := blocked \<sigma> + 1\<rparr> else \<sigma>)
      | WaitOver \<Rightarrow> \<sigma>\<lparr>blocked := blocked \<sigma> - 1\<rparr>)"

definition app_run :: "string \<Rightarrow> event list \<Rightarrow> app_sys \<Rightarrow> app_sys" where
  "app_run ourPid evs \<sigma> = fold (app_step ourPid) evs \<sigma>"

fun steps :: "nat \<Rightarrow> nat \<Rightarrow> event list" where
  \<comment> \<open>\<open>n\<close> steps of thread \<open>i\<close> with nothing in between.\<close>
  "steps i 0 = []"
| "steps i (Suc n) = Step i # steps i n"

lemma steps_numeral: "steps i (numeral k) = Step i # steps i (pred_numeral k)"
  by (simp add: numeral_eq_Suc)

definition getResults :: "app_sys \<Rightarrow> results" where
  \<comment> \<open>What \<open>getResults\<close> returns when it reads the cache in this state (line 405; it
      reads under \<open>resultsLock\<close>, so only in a state in which no thread holds it).\<close>
  "getResults \<sigma> = queryResults (app \<sigma>)"

subsection \<open>Concrete runs\<close>

text \<open>
  An output of \<open>lsof\<close> after the one quoted in the source (the \<open>sh\<close> line is the one
  the call itself adds). A thread that resolves one port that is not cached takes four
  steps up to the call of \<open>lsof\<close>; after the call it takes four more when the query
  found nothing and is counted, and seven when it installs its results.
\<close>

definition sample_lsof :: "string list" where
  "sample_lsof =
   [''COMMAND  PID   USER   FD   TYPE DEVICE SIZE/OFF NODE NAME'',
    ''tor     2001 atagar   14u  IPv4  14048      0t0  TCP localhost:9051->localhost:37277 (ESTABLISHED)'',
    ''python  2462 atagar    3u  IPv4  14047      0t0  TCP localhost:37277->localhost:9051 (ESTABLISHED)'',
    ''sh      2470 atagar    3u  IPv4  14047      0t0  TCP localhost:37277->localhost:9051 (ESTABLISHED)'']"

definition sample_results :: results where
  "sample_results = [PStr ''37277'' \<mapsto> [(''9051'', ''37277'', ''tor'', ''2001''),
                                          (''37277'', ''9051'', ''arm'', ''2462'')]]"

lemma sample_parse:
  "parse_lsof ''arm'' ''2462'' [PStr ''37277''] sample_lsof Map.empty = Inr sample_results"
  by (simp add: sample_lsof_def sample_results_def parse_lsof_def parse_line_def split_ws_def
      isspace_def add_entry_def drop_sh_def isdigit_def is_digit_def Let_def)

lemma falsy_simps: "falsy None" "falsy (Some [])" "\<not> falsy (Some (l # ls))"
  by (simp_all add: falsy_def)

lemma sample_truthy: "\<not> falsy (Some sample_lsof)"
  by (simp add: falsy_def sample_lsof_def)

lemmas app_defs = app_run_def app_step_def init_app_sys_def init_app_resolver_def goto_def
  steps_numeral falsy_simps Let_def format_port_def

lemmas sample_defs = sample_parse sample_truthy


subsection \<open>Facts about the steps\<close>



text \<open>A step of a thread changes the state of no other thread.\<close>

lemma worker_step_length: "length (threads (worker_step pid j w \<sigma>)) = length (threads \<sigma>)"
  by (induction pid j w \<sigma> rule: worker_step.induct) (simp_all add: goto_def)

lemma worker_step_others:
  "k \<noteq> j \<Longrightarrow> threads (worker_step pid j w \<sigma>) ! k = threads \<sigma> ! k"
  by (induction pid j w \<sigma> rule: worker_step.induct) (simp_all add: goto_def)

lemma app_step_length: "length (threads \<sigma>) \<le> length (threads (app_step pid ev \<sigma>))"
  by (cases ev) (simp_all add: app_step_def worker_step_length goto_def split: worker.splits)

lemma step_keeps_thread:
  assumes "i < length (threads \<sigma>)" "ev \<noteq> Step i" "\<forall>out. ev \<noteq> Return i out"
  shows "threads (app_step pid ev \<sigma>) ! i = threads \<sigma> ! i"
proof (cases ev)
  case (Resolve ports)
  with assms show ?thesis by (simp add: app_step_def nth_append)
next
  case (Step j)
  with assms have "i \<noteq> j" by simp
  with Step show ?thesis by (simp add: app_step_def worker_step_others)
next
  case (Return j out)
  with assms have "i \<noteq> j" by simp
  with Return show ?thesis by (simp add: app_step_def goto_def split: worker.splits)
next
  case (GetResults w)
  then show ?thesis by (simp add: app_step_def)
next
  case WaitOver
  then show ?thesis by (simp add: app_step_def)
qed

lemma run_keeps_thread:
  "i < length (threads \<sigma>) \<Longrightarrow> Step i \<notin> set evs \<Longrightarrow> \<forall>out. Return i out \<notin> set evs \<Longrightarrow>
   i < length (threads (app_run pid evs \<sigma>)) \<and> threads (app_run pid evs \<sigma>) ! i = threads \<sigma> ! i"
proof (induction evs arbitrary: \<sigma>)
  case Nil
  then show ?case by (simp add: app_run_def)
next
  case (Cons ev evs)
  from Cons.prems have e: "ev \<noteq> Step i" "\<forall>out. ev \<noteq> Return i out"
    and r: "Step i \<notin> set evs" "\<forall>out. Return i out \<notin> set evs" by auto
  from app_step_length [of \<sigma> pid ev] Cons.prems(1)
  have l: "i < length (threads (app_step pid ev \<sigma>))" by simp
  from Cons.IH [OF l r] step_keeps_thread [OF Cons.prems(1) e, of pid]
  show ?case by (simp add: app_run_def)
qed

text \<open>A thread in \<open>system.call\<close> is moved by nothing but the return of the call.\<close>

lemma step_keeps_calling:
  assumes "i < length (threads \<sigma>)" "threads \<sigma> ! i = Calling ports res args"
    "\<forall>out. ev \<noteq> Return i out"
  shows "threads (app_step pid ev \<sigma>) ! i = Calling ports res args"
proof (cases "ev = Step i")
  case True
  with assms show ?thesis by (simp add: app_step_def)
next
  case False
  from step_keeps_thread [OF assms(1) False assms(3), of pid] assms(2) show ?thesis by simp
qed

subsection \<open>Facts about the failure counter\<close>














subsection \<open>A thread run alone\<close>

text \<open>
  \<open>alone\<close> lets thread \<open>i\<close> take \<open>n\<close> steps with nothing in between, \<open>system.call\<close>
  returning what \<open>call\<close> gives for the command. Run alone from line 440, with
  \<open>resultsLock\<close> free, the thread ends, and it does to the resolver what
  \<open>queryApplications\<close> says: the function is the thread with nothing in between.
\<close>

definition alone_step :: "string \<Rightarrow> (string \<Rightarrow> string list option) \<Rightarrow> nat \<Rightarrow> app_sys \<Rightarrow> app_sys" where
  "alone_step pid call i \<sigma> =
     (case threads \<sigma> ! i of
        Calling ports res lsofArgs \<Rightarrow> app_step pid (Return i (call (lsof_command lsofArgs))) \<sigma>
      | _ \<Rightarrow> app_step pid (Step i) \<sigma>)"

definition alone :: "string \<Rightarrow> (string \<Rightarrow> string list option) \<Rightarrow> nat \<Rightarrow> nat \<Rightarrow> app_sys \<Rightarrow> app_sys" where
  "alone pid call i n \<sigma> = (alone_step pid call i ^^ n) \<sigma>"

lemma alone_add: "alone pid call i (n + m) \<sigma> = alone pid call i n (alone pid call i m \<sigma>)"
  by (simp add: alone_def funpow_add)

lemma alone_Suc: "alone pid call i (Suc n) \<sigma> = alone pid call i n (alone_step pid call i \<sigma>)"
  by (simp add: alone_def funpow_swap1)

lemma alone_0: "alone pid call i 0 \<sigma> = \<sigma>"
  by (simp add: alone_def)

lemma goto_same: "threads \<sigma> ! i = w \<Longrightarrow> goto i w \<sigma> = \<sigma>"
  by (auto simp: goto_def)

lemma goto_goto: "goto i w (goto i w' \<sigma>) = goto i w \<sigma>"
  by (simp add: goto_def)

definition visit :: "results \<Rightarrow> pykey \<Rightarrow> results \<times> string list \<Rightarrow> results \<times> string list" where
  \<comment> \<open>Lines 462 to 464 for one port, with the cache given.\<close>
  "visit cache port st =
     (case cache port of
        Some es \<Rightarrow> ((fst st)(port \<mapsto> es), snd st)
      | None \<Rightarrow> (fst st, snd st @ [''-i tcp:'' @ format_port port]))"

lemma partition_ports_visit:
  "partition_ports cache ports = fold (visit cache) ports (Map.empty, [])"
proof -
  have "(\<lambda>port (res, lsofArgs).
             case cache port of
               Some es \<Rightarrow> (res(port \<mapsto> es), lsofArgs)
             | None \<Rightarrow> (res, lsofArgs @ [''-i tcp:'' @ format_port port])) = visit cache"
    by (auto simp: visit_def fun_eq_iff split: option.splits)
  then show ?thesis by (simp add: partition_ports_def)
qed

lemma loop_alone:
  "i < length (threads \<sigma>) \<Longrightarrow> threads \<sigma> ! i = Checking ports todo res args \<Longrightarrow>
   \<exists>n. alone pid call i n \<sigma> =
         goto i (Checking ports [] (fst (fold (visit (queryResults (app \<sigma>))) todo (res, args)))
                                   (snd (fold (visit (queryResults (app \<sigma>))) todo (res, args)))) \<sigma>"
proof (induction todo arbitrary: \<sigma> res args)
  case Nil
  then have "alone pid call i 0 \<sigma> = goto i (Checking ports [] res args) \<sigma>"
    by (simp add: alone_0 goto_same)
  then show ?case by (intro exI [of _ 0]) simp
next
  case (Cons port rest)
  show ?case
  proof (cases "queryResults (app \<sigma>) port")
    case None
    let ?\<sigma>1 = "goto i (Checking ports rest res (args @ [''-i tcp:'' @ format_port port])) \<sigma>"
    from Cons.prems None have s: "alone_step pid call i \<sigma> = ?\<sigma>1"
      by (simp add: alone_step_def app_step_def)
    from Cons.prems have "i < length (threads ?\<sigma>1)"
      "threads ?\<sigma>1 ! i = Checking ports rest res (args @ [''-i tcp:'' @ format_port port])"
      by (simp_all add: goto_def)
    from Cons.IH [OF this] obtain n where
      "alone pid call i n ?\<sigma>1 =
         goto i (Checking ports []
           (fst (fold (visit (queryResults (app ?\<sigma>1))) rest (res, args @ [''-i tcp:'' @ format_port port])))
           (snd (fold (visit (queryResults (app ?\<sigma>1))) rest (res, args @ [''-i tcp:'' @ format_port port]))))
          ?\<sigma>1" by blast
    with s None have "alone pid call i (Suc n) \<sigma> =
         goto i (Checking ports []
           (fst (fold (visit (queryResults (app \<sigma>))) (port # rest) (res, args)))
           (snd (fold (visit (queryResults (app \<sigma>))) (port # rest) (res, args)))) \<sigma>"
      by (simp add: alone_Suc goto_goto visit_def) (simp add: goto_def)
    then show ?thesis by blast
  next
    case (Some es)
    let ?\<sigma>1 = "goto i (Copying ports (port # rest) res args) \<sigma>"
    let ?\<sigma>2 = "goto i (Checking ports rest (res(port \<mapsto> es)) args) \<sigma>"
    from Cons.prems Some have s1: "alone_step pid call i \<sigma> = ?\<sigma>1"
      by (simp add: alone_step_def app_step_def)
    from Cons.prems Some have s2: "alone_step pid call i ?\<sigma>1 = ?\<sigma>2"
      by (simp add: alone_step_def app_step_def goto_def)
    from Cons.prems have "i < length (threads ?\<sigma>2)"
      "threads ?\<sigma>2 ! i = Checking ports rest (res(port \<mapsto> es)) args"
      by (simp_all add: goto_def)
    from Cons.IH [OF this] obtain n where
      "alone pid call i n ?\<sigma>2 =
         goto i (Checking ports []
           (fst (fold (visit (queryResults (app ?\<sigma>2))) rest (res(port \<mapsto> es), args)))
           (snd (fold (visit (queryResults (app ?\<sigma>2))) rest (res(port \<mapsto> es), args))))
          ?\<sigma>2" by blast
    with s1 s2 Some have "alone pid call i (Suc (Suc n)) \<sigma> =
         goto i (Checking ports []
           (fst (fold (visit (queryResults (app \<sigma>))) (port # rest) (res, args)))
           (snd (fold (visit (queryResults (app \<sigma>))) (port # rest) (res, args)))) \<sigma>"
      by (simp add: alone_Suc goto_goto visit_def) (simp add: goto_def)
    then show ?thesis by blast
  qed
qed


definition ended :: "nat \<Rightarrow> app_resolver \<times> ending \<Rightarrow> app_sys \<Rightarrow> app_sys" where
  \<comment> \<open>Thread \<open>i\<close> has ended in the given way, leaving the resolver as given.\<close>
  "ended i ae \<sigma> =
     \<sigma>\<lparr>app := fst ae,
       threads := (threads \<sigma>)[i := (case snd ae of Raised_exn e \<Rightarrow> Crashed e | _ \<Rightarrow> Finished)],
       blocked := (if snd ae = Notified then 0 else blocked \<sigma>)\<rparr>"

lemmas alone_simps = alone_Suc alone_0 alone_step_def app_step_def goto_def ended_def

lemma finish_alone:
  assumes "i < length (threads \<sigma>)" "threads \<sigma> ! i = Testing ports res out" "lock \<sigma> = None"
  shows "\<exists>n. alone pid call i n \<sigma> = ended i (finish_query pid ports res out (app \<sigma>)) \<sigma>"
proof (cases "falsy out")
  case True
  show ?thesis
  proof (cases "failureCount (app \<sigma>) = -1")
    case False
    with True assms have "alone pid call i (Suc (Suc (Suc (Suc 0)))) \<sigma>
        = ended i (finish_query pid ports res out (app \<sigma>)) \<sigma>"
      by (simp add: alone_simps finish_query_def)
    then show ?thesis by blast
  next
    case minus: True
    with True assms have "alone pid call i (Suc (Suc (Suc (Suc (Suc (Suc (Suc 0))))))) \<sigma>
        = ended i (finish_query pid ports res out (app \<sigma>)) \<sigma>"
      by (simp add: alone_simps finish_query_def)
    then show ?thesis by blast
  qed
next
  case False
  show ?thesis
  proof (cases "parse_lsof (scriptName (app \<sigma>)) pid ports (the out) res")
    case (Inl e)
    with False assms have "alone pid call i (Suc 0) \<sigma>
        = ended i (finish_query pid ports res out (app \<sigma>)) \<sigma>"
      by (simp add: alone_simps finish_query_def)
    then show ?thesis by blast
  next
    case (Inr r)
    with False assms have "alone pid call i (Suc (Suc (Suc (Suc (Suc (Suc (Suc 0))))))) \<sigma>
        = ended i (finish_query pid ports res out (app \<sigma>)) \<sigma>"
      by (simp add: alone_simps finish_query_def)
    then show ?thesis by blast
  qed
qed

lemma thread_alone:
  assumes "i < length (threads \<sigma>)" "threads \<sigma> ! i = Started ports" "lock \<sigma> = None"
  shows "\<exists>n. alone pid call i n \<sigma> = ended i (queryApplications pid call ports (app \<sigma>)) \<sigma>"
proof (cases "ports = []")
  case True
  with assms have "alone pid call i (Suc (Suc (Suc (Suc (Suc (Suc 0)))))) \<sigma>
      = ended i (queryApplications pid call ports (app \<sigma>)) \<sigma>"
    by (simp add: alone_simps queryApplications_def)
  then show ?thesis by blast
next
  case False
  let ?c = "queryResults (app \<sigma>)"
  let ?res = "fst (partition_ports ?c ports)"
  let ?args = "snd (partition_ports ?c ports)"
  let ?out = "if ?args \<noteq> [] then call (lsof_command ?args) else None"
  let ?\<sigma>1 = "goto i (Checking ports ports Map.empty []) \<sigma>"
  let ?\<sigma>2 = "goto i (Checking ports [] ?res ?args) \<sigma>"
  let ?\<sigma>3 = "goto i (Testing ports ?res ?out) \<sigma>"
  from assms False have s1: "alone_step pid call i \<sigma> = ?\<sigma>1"
    by (simp add: alone_step_def app_step_def)
  from assms have "i < length (threads ?\<sigma>1)" "threads ?\<sigma>1 ! i = Checking ports ports Map.empty []"
    by (simp_all add: goto_def)
  from loop_alone [OF this, of pid call] obtain n where
    s2: "alone pid call i n ?\<sigma>1 = ?\<sigma>2"
    by (auto simp: partition_ports_visit goto_goto) (simp add: goto_def)
  from assms obtain m where s3: "alone pid call i m ?\<sigma>2 = ?\<sigma>3"
  proof (cases "?args \<noteq> []")
    case True
    with assms have "alone pid call i (Suc (Suc 0)) ?\<sigma>2 = ?\<sigma>3" by (simp add: alone_simps)
    with that show ?thesis by blast
  next
    case False
    with assms have "alone pid call i (Suc 0) ?\<sigma>2 = ?\<sigma>3" by (simp add: alone_simps)
    with that show ?thesis by blast
  qed
  from assms have "i < length (threads ?\<sigma>3)" "threads ?\<sigma>3 ! i = Testing ports ?res ?out"
    "lock ?\<sigma>3 = None"
    by (simp_all add: goto_def)
  from finish_alone [OF this, of pid call] obtain k where
    s4: "alone pid call i k ?\<sigma>3 = ended i (finish_query pid ports ?res ?out (app ?\<sigma>3)) ?\<sigma>3"
    by blast
  have e: "ended i (finish_query pid ports ?res ?out (app ?\<sigma>3)) ?\<sigma>3
      = ended i (queryApplications pid call ports (app \<sigma>)) \<sigma>"
    using False by (simp add: queryApplications_def split_beta Let_def ended_def goto_def)
  have "alone pid call i (k + (m + (n + 1))) \<sigma> = ended i (queryApplications pid call ports (app \<sigma>)) \<sigma>"
    unfolding alone_add using s1 s2 s3 s4 e by (simp add: alone_Suc alone_0)
  then show ?thesis by blast
qed

text \<open>A call of \<open>resolve\<close> run alone is the test of line 419 and the first step of the thread.\<close>

lemma resolve_alone:
  "app_run pid [Resolve ports, Step (length (threads \<sigma>))] \<sigma> =
     (case resolve ports (app \<sigma>) of
        (a, Some p) \<Rightarrow> \<sigma>\<lparr>app := a, threads := threads \<sigma> @ [Started p]\<rparr>
      | (a, None) \<Rightarrow> \<sigma>)"
  by (simp add: app_run_def app_step_def resolve_def goto_def)


text \<open>A thread that is not in \<open>system.call\<close> is moved by nothing but its own steps.\<close>

definition calling :: "worker \<Rightarrow> bool" where
  "calling w = (case w of Calling _ _ _ \<Rightarrow> True | _ \<Rightarrow> False)"



subsection \<open>Concrete states\<close>














subsection \<open>Claims about permanent failure\<close>








subsection \<open>Claims about waking the callers of \<open>getResults\<close>\<close>

text \<open>
  Claim C3, on the code. A caller blocks in \<open>getResults(5)\<close> while a resolution of port
  37277 is in flight, and \<open>lsof\<close> returns nothing. The failure counter becomes 1 and
  the cache is untouched, but the thread returns at line 475 without
  \<open>notifyAll\<close>: the caller is still blocked. On the same run with a successful query,
  and on a resolution of no ports, the caller is woken.
\<close>

theorem failed_query_keeps_waiter_blocked:
  "app_run ''2462'' ([Resolve [PStr ''37277''], Step 0, GetResults 5] @ steps 0 3
                      @ Return 0 None # steps 0 4) (init_app_sys ''arm'')
     = \<lparr> app = \<lparr> scriptName = ''arm'', queryResults = Map.empty, isResolving = False,
                     failureCount = 1 \<rparr>,
           threads = [Finished], blocked = 1, lock = None \<rparr>
   \<and> app_run ''2462'' ([Resolve [PStr ''37277''], Step 0, GetResults 5] @ steps 0 3
                      @ Return 0 (Some sample_lsof) # steps 0 7) (init_app_sys ''arm'')
     = \<lparr> app = \<lparr> scriptName = ''arm'', queryResults = sample_results, isResolving = False,
                     failureCount = -1 \<rparr>,
           threads = [Finished], blocked = 0, lock = None \<rparr>
   \<and> app_run ''2462'' ([Resolve [], Step 0, GetResults 5] @ steps 0 6) (init_app_sys ''arm'')
     = \<lparr> app = \<lparr> scriptName = ''arm'', queryResults = Map.empty, isResolving = False,
                     failureCount = 0 \<rparr>,
           threads = [Finished], blocked = 0, lock = None \<rparr>
   \<and> queryApplications ''2462'' (\<lambda>cmd. None) [PStr ''37277'']
         ((init_app_resolver ''arm'')\<lparr>isResolving := True\<rparr>)
       = ((init_app_resolver ''arm'')\<lparr>failureCount := 1\<rparr>, Silent)"
  by (simp add: app_defs sample_defs queryApplications_def partition_ports_def finish_query_def)


subsection \<open>Claims about \<open>resolve\<close> with no ports\<close>










subsection \<open>Two resolutions at once\<close>

text \<open>The parser only adds keys that are among the requested ports.\<close>

lemma add_entry_dom: "dom (add_entry ports e pm res) \<subseteq> dom res \<union> set ports"
  by (auto simp: add_entry_def split: option.splits if_splits)

lemma drop_sh_dom: "dom (drop_sh q res) = dom res"
  by (auto simp: drop_sh_def split: option.splits if_splits)

lemma add_entry_twice_dom:
  "x \<in> dom (add_entry ports e a (add_entry ports e' b res)) \<Longrightarrow> x \<in> dom res \<or> x \<in> set ports"
  using add_entry_dom [of ports e a "add_entry ports e' b res"] add_entry_dom [of ports e' b res]
  by blast

lemma add_entry_twice_Some:
  "add_entry ports e a (add_entry ports e' b res) x = Some y \<Longrightarrow> x \<notin> set ports \<Longrightarrow>
   \<exists>y. res x = Some y"
  using add_entry_twice_dom [of x ports e a e' b res] by auto

lemma parse_line_dom:
  assumes "parse_line name pid ports line (res, oc) = Inr (res', oc')"
  shows "dom res' \<subseteq> dom res \<union> set ports"
proof
  fix x assume "x \<in> dom res'"
  with assms have "x \<in> dom res \<or> x \<in> set ports"
    unfolding parse_line_def
    by (auto simp: Let_def split: if_splits list.splits sum.splits dest: add_entry_twice_Some)
  then show "x \<in> dom res \<union> set ports" by simp
qed

lemma parse_lines_dom:
  "parse_lines name pid ports ls (res, oc) = Inr (res', oc') \<Longrightarrow> dom res' \<subseteq> dom res \<union> set ports"
proof (induction ls arbitrary: res oc)
  case Nil
  then show ?case by simp
next
  case (Cons l ls)
  from Cons.prems obtain r1 o1 where a: "parse_line name pid ports l (res, oc) = Inr (r1, o1)"
    and b: "parse_lines name pid ports ls (r1, o1) = Inr (res', oc')"
    by (auto split: sum.splits)
  from parse_line_dom [OF a] Cons.IH [OF b] show ?case by blast
qed

lemma parse_lsof_dom:
  assumes "parse_lsof name pid ports ls res = Inr res'"
  shows "dom res' \<subseteq> dom res \<union> set ports"
proof -
  from assms obtain r oc where a: "parse_lines name pid ports ls (res, None) = Inr (r, oc)"
    and b: "res' = r \<or> (\<exists>x y. res' = drop_sh x (drop_sh y r))"
    unfolding parse_lsof_def by (auto split: sum.splits option.splits prod.splits)
  from b have "dom res' = dom r" by (elim disjE exE) (simp_all add: drop_sh_dom)
  with parse_lines_dom [OF a] show ?thesis by simp
qed



text \<open>
  What a resolution of the single port \<open>p\<close> builds on its own. When it finds \<open>p\<close> in the
  cache it copies the entry and does not call \<open>lsof\<close>: its results are the cached
  entry alone. When it does not, its results are what it parses from the output of its
  own call, the empty mapping when the call returned nothing; there are none when the
  parse raises.
\<close>

definition cached_result :: "results \<Rightarrow> pykey \<Rightarrow> results option" where
  "cached_result c p = (case c p of Some es \<Rightarrow> Some [p \<mapsto> es] | None \<Rightarrow> None)"

definition own_result :: "string \<Rightarrow> string \<Rightarrow> pykey \<Rightarrow> string list option \<Rightarrow> results option" where
  "own_result name pid p out =
     (if falsy out then Some Map.empty
      else (case parse_lsof name pid [p] (the out) Map.empty of
              Inl e \<Rightarrow> None
            | Inr r \<Rightarrow> Some r))"

text \<open>
  These are the results of the function run alone, whenever it installs any: it ends
  with the notification only on the path through lines 521 to 530.
\<close>

lemma solo_results:
  assumes "snd (queryApplications pid (\<lambda>cmd. out) [p] s) = Notified"
  shows "Some (queryResults (fst (queryApplications pid (\<lambda>cmd. out) [p] s))) =
     (case queryResults s p of
        Some es \<Rightarrow> cached_result (queryResults s) p
      | None \<Rightarrow> own_result (scriptName s) pid p out)"
  using assms
  by (auto simp: queryApplications_def partition_ports_def finish_query_def cached_result_def
      own_result_def falsy_def split: option.splits sum.splits if_splits)

text \<open>
  \<open>whole c0 outs c\<close> says that the cache \<open>c\<close> is the cache \<open>c0\<close> untouched, or is in full
  what one resolution of \<open>p\<close> builds on its own, from the entry of \<open>p\<close> in \<open>c0\<close> or from
  one of the outputs \<open>outs\<close> of \<open>lsof\<close>.
\<close>

definition whole ::
  "string \<Rightarrow> string \<Rightarrow> pykey \<Rightarrow> results \<Rightarrow> string list option list \<Rightarrow> results \<Rightarrow> bool" where
  "whole name pid p c0 outs c =
     (c = c0 \<or> Some c = cached_result c0 p \<or> (\<exists>out \<in> set outs. Some c = own_result name pid p out))"

lemma single_key: "dom c \<subseteq> {p} \<Longrightarrow> c p = Some es \<Longrightarrow> c = [p \<mapsto> es]"
proof
  fix x assume d: "dom c \<subseteq> {p}" and v: "c p = Some es"
  show "c x = [p \<mapsto> es] x"
  proof (cases "x = p")
    case True
    with v show ?thesis by simp
  next
    case False
    with d have "x \<notin> dom c" by auto
    with False show ?thesis by (simp add: domIff)
  qed
qed

lemma own_result_dom: "own_result name pid p out = Some c \<Longrightarrow> dom c \<subseteq> {p}"
proof -
  assume a: "own_result name pid p out = Some c"
  show ?thesis
  proof (cases "falsy out")
    case True
    with a have "c = Map.empty" by (simp add: own_result_def)
    then show ?thesis by simp
  next
    case False
    with a have "parse_lsof name pid [p] (the out) Map.empty = Inr c"
      by (simp add: own_result_def split: sum.splits)
    from parse_lsof_dom [OF this] show ?thesis by simp
  qed
qed

text \<open>If \<open>p\<close> is in such a cache, its entry alone is such a cache as well.\<close>

lemma whole_entry:
  assumes "whole name pid p c0 outs c" "c p = Some es"
  shows "whole name pid p c0 outs [p \<mapsto> es]"
proof -
  from assms(1) consider (same) "c = c0" | (cached) "Some c = cached_result c0 p"
    | (own) out where "out \<in> set outs" "Some c = own_result name pid p out"
    by (auto simp: whole_def)
  then show ?thesis
  proof cases
    case same
    with assms(2) show ?thesis by (simp add: whole_def cached_result_def)
  next
    case cached
    then obtain es' where "c0 p = Some es'" "c = [p \<mapsto> es']"
      by (auto simp: cached_result_def split: option.splits)
    with assms(2) show ?thesis by (simp add: whole_def cached_result_def)
  next
    case own
    from own(2) have "dom c \<subseteq> {p}" by (intro own_result_dom [of name pid p out]) simp
    from single_key [OF this assms(2)] own show ?thesis by (auto simp: whole_def)
  qed
qed

lemma whole_empty:
  "out \<in> set outs \<Longrightarrow> falsy out \<Longrightarrow> whole name pid p c0 outs Map.empty"
  by (auto simp: whole_def own_result_def)

lemma whole_parsed:
  "out \<in> set outs \<Longrightarrow> \<not> falsy out \<Longrightarrow> parse_lsof name pid [p] (the out) Map.empty = Inr r \<Longrightarrow>
   whole name pid p c0 outs r"
  by (auto simp: whole_def own_result_def)


text \<open>
  What holds of a thread that resolves the single port \<open>p\<close>, wherever it is: the results
  it carries are empty, or such a cache.
\<close>

definition thread_inv :: "(results \<Rightarrow> bool) \<Rightarrow> pykey \<Rightarrow> string list option list \<Rightarrow> worker \<Rightarrow> bool" where
  "thread_inv G p outs w =
     (case w of
        Spawning ports \<Rightarrow> ports = [p]
      | Started ports \<Rightarrow> ports = [p]
      | Checking ports todo res args \<Rightarrow>
          ports = [p] \<and> ((todo = [p] \<and> res = Map.empty \<and> args = [])
                         \<or> (todo = [] \<and> res = Map.empty \<and> args \<noteq> [])
                         \<or> (todo = [] \<and> G res \<and> args = []))
      | Copying ports todo res args \<Rightarrow> ports = [p] \<and> todo = [p] \<and> res = Map.empty \<and> args = []
      | Calling ports res args \<Rightarrow> ports = [p] \<and> res = Map.empty
      | Testing ports res out \<Rightarrow>
          ports = [p] \<and> ((G res \<and> out = None) \<or> (res = Map.empty \<and> out \<in> set outs))
      | Acquiring r \<Rightarrow> G r
      | Store_count r \<Rightarrow> G r
      | Store_cache r \<Rightarrow> G r
      | Empty_acquire \<Rightarrow> False
      | Empty_clear \<Rightarrow> False
      | Empty_flag \<Rightarrow> False
      | Empty_release \<Rightarrow> False
      | Empty_notify \<Rightarrow> False
      | _ \<Rightarrow> True)"

definition pair_inv ::
  "string \<Rightarrow> string \<Rightarrow> pykey \<Rightarrow> results \<Rightarrow> string list option list \<Rightarrow> nat \<Rightarrow> app_sys \<Rightarrow> bool" where
  \<comment> \<open>The threads from index \<open>i\<close> on resolve \<open>p\<close>, and the cache is whole.\<close>
  "pair_inv name pid p c0 outs i \<sigma> =
     (scriptName (app \<sigma>) = name \<and> whole name pid p c0 outs (queryResults (app \<sigma>))
      \<and> (\<forall>k. i \<le> k \<and> k < length (threads \<sigma>) \<longrightarrow>
            thread_inv (whole name pid p c0 outs) p outs (threads \<sigma> ! k)))"

lemma worker_step_inv:
  assumes n: "scriptName (app \<sigma>) = name"
    and c: "whole name pid p c0 outs (queryResults (app \<sigma>))"
    and k: "k < length (threads \<sigma>)" "threads \<sigma> ! k = w"
    and t: "thread_inv (whole name pid p c0 outs) p outs w"
  shows "scriptName (app (worker_step pid k w \<sigma>)) = name
       \<and> whole name pid p c0 outs (queryResults (app (worker_step pid k w \<sigma>)))
       \<and> thread_inv (whole name pid p c0 outs) p outs (threads (worker_step pid k w \<sigma>) ! k)"
proof (cases w)
  case (Spawning ports)
  with n c k t show ?thesis by (simp add: goto_def thread_inv_def)
next
  case (Started ports)
  with n c k t show ?thesis by (simp add: goto_def thread_inv_def)
next
  case (Checking ports todo res args)
  with t consider (first) "ports = [p]" "todo = [p]" "res = Map.empty" "args = []"
    | (call) "ports = [p]" "todo = []" "res = Map.empty" "args \<noteq> []"
    | (copied) "ports = [p]" "todo = []" "whole name pid p c0 outs res" "args = []"
    by (auto simp: thread_inv_def)
  then show ?thesis
  proof cases
    case first
    with Checking n c k show ?thesis by (simp add: goto_def thread_inv_def)
  next
    case call
    with Checking n c k show ?thesis by (simp add: goto_def thread_inv_def)
  next
    case copied
    with Checking n c k show ?thesis by (simp add: goto_def thread_inv_def)
  qed
next
  case (Copying ports todo res args)
  with t have v: "ports = [p]" "todo = [p]" "res = Map.empty" "args = []"
    by (simp_all add: thread_inv_def)
  show ?thesis
  proof (cases "queryResults (app \<sigma>) p")
    case None
    with Copying v n c k show ?thesis by (simp add: goto_def thread_inv_def)
  next
    case (Some es)
    from whole_entry [OF c Some] have "whole name pid p c0 outs [p \<mapsto> es]" .
    with Copying v Some n c k show ?thesis by (simp add: goto_def thread_inv_def)
  qed
next
  case (Calling ports res args)
  with n c k t show ?thesis by simp
next
  case (Testing ports res out)
  with t consider (cached) "ports = [p]" "whole name pid p c0 outs res" "out = None"
    | (called) "ports = [p]" "res = Map.empty" "out \<in> set outs"
    by (auto simp: thread_inv_def)
  then show ?thesis
  proof cases
    case cached
    with Testing n c k show ?thesis by (simp add: goto_def thread_inv_def falsy_def)
  next
    case called
    show ?thesis
    proof (cases "falsy out")
      case True
      from whole_empty [OF called(3) True] have "whole name pid p c0 outs Map.empty" .
      with Testing called True n c k show ?thesis by (simp add: goto_def thread_inv_def)
    next
      case False
      show ?thesis
      proof (cases "parse_lsof name pid [p] (the out) Map.empty")
        case (Inl e)
        with Testing called False n c k show ?thesis by (simp add: goto_def thread_inv_def)
      next
        case (Inr r)
        from whole_parsed [OF called(3) False Inr] have "whole name pid p c0 outs r" .
        with Testing called False Inr n c k show ?thesis by (simp add: goto_def thread_inv_def)
      qed
    qed
  qed
next
  case (Acquiring r)
  with n c k t show ?thesis by (simp add: goto_def thread_inv_def)
next
  case (Store_count r)
  with n c k t show ?thesis by (simp add: goto_def thread_inv_def)
next
  case (Store_cache r)
  with n c k t show ?thesis by (simp add: goto_def thread_inv_def)
qed (use n c k t in \<open>simp_all add: goto_def thread_inv_def\<close>)

text \<open>
  The events of two overlapping resolutions of \<open>p\<close>, the first of which is thread \<open>i\<close>:
  calls of \<open>resolve([p])\<close>, steps of the two threads, returns of their calls of \<open>lsof\<close>
  with one of the outputs \<open>outs\<close>, and callers of \<open>getResults\<close>.
\<close>

definition of_pair :: "pykey \<Rightarrow> string list option list \<Rightarrow> nat \<Rightarrow> event \<Rightarrow> bool" where
  "of_pair p outs i ev =
     (case ev of
        Resolve ports \<Rightarrow> ports = [p]
      | Step k \<Rightarrow> k = i \<or> k = Suc i
      | Return k out \<Rightarrow> (k = i \<or> k = Suc i) \<and> out \<in> set outs
      | GetResults maxWait \<Rightarrow> True
      | WaitOver \<Rightarrow> True)"

lemma step_pair_inv:
  assumes "pair_inv name pid p c0 outs i \<sigma>" "of_pair p outs i ev"
  shows "pair_inv name pid p c0 outs i (app_step pid ev \<sigma>)"
proof (cases ev)
  case (Resolve ports)
  with assms show ?thesis
    by (auto simp: pair_inv_def of_pair_def app_step_def nth_append thread_inv_def)
next
  case (Step k)
  show ?thesis
  proof (cases "k < length (threads \<sigma>)")
    case False
    with Step assms(1) show ?thesis by (simp add: app_step_def)
  next
    case True
    from Step assms(2) have ik: "i \<le> k" by (auto simp: of_pair_def)
    let ?\<sigma>' = "worker_step pid k (threads \<sigma> ! k) \<sigma>"
    from assms(1) True ik
    have "scriptName (app ?\<sigma>') = name
       \<and> whole name pid p c0 outs (queryResults (app ?\<sigma>'))
       \<and> thread_inv (whole name pid p c0 outs) p outs (threads ?\<sigma>' ! k)"
      by (intro worker_step_inv) (simp_all add: pair_inv_def)
    moreover have "thread_inv (whole name pid p c0 outs) p outs (threads ?\<sigma>' ! m)"
      if "i \<le> m" "m < length (threads ?\<sigma>')" "m \<noteq> k" for m
      using that assms(1) by (simp add: worker_step_others worker_step_length pair_inv_def)
    ultimately have "pair_inv name pid p c0 outs i ?\<sigma>'"
      unfolding pair_inv_def by blast
    with Step True show ?thesis by (simp add: app_step_def)
  qed
next
  case (Return k out)
  show ?thesis
  proof (cases "k < length (threads \<sigma>) \<and> calling (threads \<sigma> ! k)")
    case False
    with Return have "app_step pid ev \<sigma> = \<sigma>"
      by (auto simp: app_step_def calling_def split: worker.splits)
    with assms(1) show ?thesis by simp
  next
    case True
    then obtain ports res args where w: "threads \<sigma> ! k = Calling ports res args"
      by (auto simp: calling_def split: worker.splits)
    from Return assms(2) have ik: "i \<le> k" and o: "out \<in> set outs" by (auto simp: of_pair_def)
    from assms(1) True ik w have "ports = [p]" "res = Map.empty"
      by (auto simp: pair_inv_def thread_inv_def)
    with Return True w o assms(1) show ?thesis
      by (auto simp: app_step_def goto_def pair_inv_def thread_inv_def nth_list_update)
  qed
next
  case (GetResults maxWait)
  with assms(1) show ?thesis by (simp add: app_step_def pair_inv_def)
next
  case WaitOver
  with assms(1) show ?thesis by (simp add: app_step_def pair_inv_def)
qed

lemma run_pair_inv:
  "pair_inv name pid p c0 outs i \<sigma> \<Longrightarrow> list_all (of_pair p outs i) evs \<Longrightarrow>
   pair_inv name pid p c0 outs i (app_run pid evs \<sigma>)"
  unfolding app_run_def by (induction evs arbitrary: \<sigma>) (simp_all add: step_pair_inv)


subsection \<open>Claims about overlapping resolutions\<close>

text \<open>
  Claim C9, as the code has it. \<open>resolve([p])\<close> is called in a state \<open>\<sigma>\<close>, twice or more,
  and the first two threads it adds run in any order, step by step, their calls of
  \<open>lsof\<close> returning outputs among \<open>outs\<close>. Whatever the order, and however far the two
  threads have got, the cache is the cache of \<open>\<sigma>\<close> untouched or is in full what one
  resolution of \<open>p\<close> builds on its own: the entry of \<open>p\<close> in the cache of \<open>\<sigma>\<close> alone, or
  what is parsed from one of the outputs (the empty mapping for an output that is
  empty). It is never made of parts of two of them.
\<close>

theorem overlapping_resolutions:
  "list_all (of_pair p outs (length (threads \<sigma>))) evs \<longrightarrow>
   whole (scriptName (app \<sigma>)) pid p (queryResults (app \<sigma>)) outs (getResults (app_run pid evs \<sigma>))"
proof
  assume e: "list_all (of_pair p outs (length (threads \<sigma>))) evs"
  have "pair_inv (scriptName (app \<sigma>)) pid p (queryResults (app \<sigma>)) outs (length (threads \<sigma>)) \<sigma>"
    by (auto simp: pair_inv_def whole_def)
  from run_pair_inv [OF this e]
  show "whole (scriptName (app \<sigma>)) pid p (queryResults (app \<sigma>)) outs
          (getResults (app_run pid evs \<sigma>))"
    by (simp add: pair_inv_def getResults_def)
qed

text \<open>
  Two resolutions of port 37277 on a new resolver, both in \<open>system.call\<close> at once. In
  the first run the query of the first returns the sample output and is installed
  before the query of the second returns nothing: the second then finds a success
  recorded and installs its own, empty results. In the second run the second thread
  ends first and is counted as a failure.
\<close>

definition both_calling :: "event list" where
  "both_calling = [Resolve [PStr ''37277''], Step 0, Resolve [PStr ''37277''], Step 1]
                  @ steps 0 3 @ steps 1 3"

definition success_first :: "event list" where
  "success_first = both_calling @ Return 0 (Some sample_lsof) # steps 0 7 @ Return 1 None # steps 1 7"

definition failure_first :: "event list" where
  "failure_first = both_calling @ Return 1 None # steps 1 4 @ Return 0 (Some sample_lsof) # steps 0 7"

theorem overlapping_resolutions_witness:
  "list_all (of_pair (PStr ''37277'') [Some sample_lsof, None] 0) success_first
   \<and> list_all (of_pair (PStr ''37277'') [Some sample_lsof, None] 0) failure_first
   \<and> own_result ''arm'' ''2462'' (PStr ''37277'') (Some sample_lsof) = Some sample_results
   \<and> own_result ''arm'' ''2462'' (PStr ''37277'') None = Some Map.empty
   \<and> getResults (app_run ''2462'' success_first (init_app_sys ''arm'')) = Map.empty
   \<and> getResults (app_run ''2462'' failure_first (init_app_sys ''arm'')) = sample_results
   \<and> whole ''arm'' ''2462'' (PStr ''37277'') Map.empty [Some sample_lsof, None]
        (getResults (app_run ''2462'' success_first (init_app_sys ''arm'')))
   \<and> whole ''arm'' ''2462'' (PStr ''37277'') Map.empty [Some sample_lsof, None]
        (getResults (app_run ''2462'' failure_first (init_app_sys ''arm'')))"
proof -
  let ?outs = "[Some sample_lsof, None]"
  have h: "list_all (of_pair (PStr ''37277'') ?outs (length (threads (init_app_sys ''arm''))))
             success_first"
    "list_all (of_pair (PStr ''37277'') ?outs (length (threads (init_app_sys ''arm''))))
             failure_first"
    "length (threads (init_app_sys ''arm'')) = 0"
    by (simp_all add: success_first_def failure_first_def both_calling_def of_pair_def
        init_app_sys_def steps_numeral)
  have o: "own_result ''arm'' ''2462'' (PStr ''37277'') (Some sample_lsof) = Some sample_results"
    "own_result ''arm'' ''2462'' (PStr ''37277'') None = Some Map.empty"
    by (simp_all add: own_result_def sample_defs falsy_simps)
  have v: "getResults (app_run ''2462'' success_first (init_app_sys ''arm'')) = Map.empty"
    "getResults (app_run ''2462'' failure_first (init_app_sys ''arm'')) = sample_results"
    by (simp_all add: getResults_def success_first_def failure_first_def both_calling_def
        app_defs sample_defs)
  have i: "scriptName (app (init_app_sys ''arm'')) = ''arm''"
    "queryResults (app (init_app_sys ''arm'')) = Map.empty"
    by (simp_all add: init_app_sys_def init_app_resolver_def)
  from overlapping_resolutions [of "PStr ''37277''" ?outs "init_app_sys ''arm''" success_first "''2462''"]
    overlapping_resolutions [of "PStr ''37277''" ?outs "init_app_sys ''arm''" failure_first "''2462''"]
    h o v i
  show ?thesis by simp
qed

text \<open>
  Claim C9 as stated fails: after two calls of \<open>resolve\<close> on a new resolver two threads
  are in flight, and both are in their call of \<open>lsof\<close> before either returns.
\<close>

theorem two_in_flight_counterexample:
  "threads (app_run ''2462'' [Resolve [PStr ''80''], Resolve [PStr ''80'']] (init_app_sys ''arm''))
     = [Spawning [PStr ''80''], Spawning [PStr ''80'']]
   \<and> threads (app_run ''2462'' ([Resolve [PStr ''80''], Step 0, Resolve [PStr ''80''], Step 1]
                                 @ steps 0 3 @ steps 1 3) (init_app_sys ''arm''))
     = [Calling [PStr ''80''] Map.empty [''-i tcp:80''], Calling [PStr ''80''] Map.empty [''-i tcp:80'']]
   \<and> length (filter in_flight
        (threads (app_run ''2462'' ([Resolve [PStr ''80''], Step 0, Resolve [PStr ''80''], Step 1]
                                      @ steps 0 3 @ steps 1 3) (init_app_sys ''arm'')))) = 2"
  by (simp add: app_defs in_flight_def)


end
